theory Spec2Isabelle
  imports Main "HOL-Library.Multiset"
begin

section \<open>Cards\<close>

text \<open>
  A card is the pair \<open>(rank, suit)\<close>. The program takes ranks and suits from the two
  closed lists \<open>RANKS\<close> and \<open>SUITS\<close>; each is an enumeration here, in the order of
  the lists.
\<close>

datatype rank = Two | Three | Four | Five | Six | Seven | Eight | Nine | Ten
  | Jack | Queen | King | Ace

datatype suit = Spades | Hearts | Diamonds | Clubs

type_synonym card = "rank \<times> suit"

definition RANKS :: "rank list" where
  "RANKS = [Two, Three, Four, Five, Six, Seven, Eight, Nine, Ten, Jack, Queen, King, Ace]"

definition SUITS :: "suit list" where
  "SUITS = [Spades, Hearts, Diamonds, Clubs]"

section \<open>Hand scoring\<close>

text \<open>
  \<open>card_value\<close>: the face cards are 10, the Ace is 11, every other rank is the
  number it spells (\<open>int(rank)\<close> in the source).
\<close>

fun card_value :: "rank \<Rightarrow> int" where
  "card_value Jack = 10"
| "card_value Queen = 10"
| "card_value King = 10"
| "card_value Ace = 11"
| "card_value Two = 2"
| "card_value Three = 3"
| "card_value Four = 4"
| "card_value Five = 5"
| "card_value Six = 6"
| "card_value Seven = 7"
| "card_value Eight = 8"
| "card_value Nine = 9"
| "card_value Ten = 10"

text \<open>
  The body of the \<open>for\<close> loop of \<open>hand_value\<close>, on the pair \<open>(value, aces)\<close>.
\<close>

definition count_card :: "card \<Rightarrow> int \<times> int \<Rightarrow> int \<times> int" where
  "count_card c acc =
     (case (c, acc) of ((rank, _), (value, aces)) \<Rightarrow>
        (value + card_value rank, if rank = Ace then aces + 1 else aces))"

text \<open>
  The \<open>while\<close> loop of \<open>hand_value\<close>: one Ace goes from 11 to 1 per round, as long
  as the value is above 21 and an Ace is left.
\<close>

function soften :: "int \<Rightarrow> int \<Rightarrow> int" where
  "soften value aces =
     (if value > 21 \<and> aces > 0 then soften (value - 10) (aces - 1) else value)"
  by pat_completeness auto
termination
  by (relation "measure (\<lambda>(value, aces). nat aces)") auto

definition hand_value :: "card list \<Rightarrow> int" where
  "hand_value hand = (case fold count_card hand (0, 0) of (value, aces) \<Rightarrow> soften value aces)"


section \<open>Deck\<close>

text \<open>
  The random source of \<open>random.shuffle\<close> is the sequence of raw numbers it still has to
  deliver. \<open>randbelow g n\<close> takes the next one, reduced below \<open>n\<close>, and returns the
  advanced source, so every run of choices \<open>j < n\<close> comes from some source.
\<close>

type_synonym rng = "nat \<Rightarrow> nat"

definition randbelow :: "rng \<Rightarrow> nat \<Rightarrow> nat \<times> rng" where
  "randbelow g n = (g 0 mod n, \<lambda>k. g (Suc k))"

text \<open>
  One round of the library's shuffle: \<open>j = randbelow(i + 1)\<close>, then
  \<open>x[i], x[j] = x[j], x[i]\<close>.
\<close>

definition shuffle_step :: "nat \<Rightarrow> 'a list \<times> rng \<Rightarrow> 'a list \<times> rng" where
  "shuffle_step i acc =
     (case acc of (x, g) \<Rightarrow>
        (case randbelow g (i + 1) of (j, g') \<Rightarrow> (x[i := x ! j, j := x ! i], g')))"

text \<open>\<open>for i in reversed(range(1, len(x)))\<close>: the indices from the last down to 1.\<close>

definition shuffle :: "'a list \<Rightarrow> rng \<Rightarrow> 'a list \<times> rng" where
  "shuffle x g = fold shuffle_step (rev [1..<length x]) (x, g)"

text \<open>
  \<open>build_deck\<close>: the comprehension runs over the suits outside and the ranks inside.
  The result is the deck and the random source after the call.
\<close>

definition build_deck :: "bool \<Rightarrow> rng \<Rightarrow> card list \<times> rng" where
  "build_deck shuffled g =
     (let deck = concat (map (\<lambda>suit. map (\<lambda>rank. (rank, suit)) RANKS) SUITS)
      in if shuffled then shuffle deck g else (deck, g))"

section \<open>Drawing\<close>

text \<open>
  The exceptions the program can raise: \<open>IndexError\<close> from \<open>pop\<close> on an empty list and
  from an index out of range, \<open>EOFError\<close> from \<open>input\<close> at the end of the input,
  and, where a session key is missing and \<open>None\<close> stands for a list, \<open>TypeError\<close>
  from iterating or indexing \<open>None\<close> and \<open>AttributeError\<close> from calling a list
  method on it. Lists are mutated in place, so a function returns its result, or the
  exception, together with the lists as they are at that moment.
\<close>

datatype error = IndexError | EOFError | TypeError | AttributeError

text \<open>\<open>deck.pop()\<close> takes the last element of the list.\<close>

definition pop :: "'a list \<Rightarrow> (error + 'a) \<times> 'a list" where
  "pop xs = (if xs = [] then (Inl IndexError, xs) else (Inr (last xs), butlast xs))"

text \<open>
  \<open>deal_initial_hands\<close>: four pops, left to right; the first two are the player's.
  The second component is the deck afterwards.
\<close>

definition deal_initial_hands ::
  "card list \<Rightarrow> (error + card list \<times> card list) \<times> card list" where
  "deal_initial_hands deck =
     (case pop deck of
        (Inl e, d1) \<Rightarrow> (Inl e, d1)
      | (Inr p1, d1) \<Rightarrow>
     (case pop d1 of
        (Inl e, d2) \<Rightarrow> (Inl e, d2)
      | (Inr p2, d2) \<Rightarrow>
     (case pop d2 of
        (Inl e, d3) \<Rightarrow> (Inl e, d3)
      | (Inr c1, d3) \<Rightarrow>
     (case pop d3 of
        (Inl e, d4) \<Rightarrow> (Inl e, d4)
      | (Inr c2, d4) \<Rightarrow> (Inr ([p1, p2], [c1, c2]), d4)))))"

section \<open>Turns\<close>

text \<open>
  \<open>player_turn\<close> of the console program. The third argument is the input still to be
  read, one entry per prompt, each as \<open>choice\<close> holds it (stripped, in lower case).
  The result comes with the deck, the hand and the unread input.
\<close>

fun player_turn ::
  "card list \<Rightarrow> card list \<Rightarrow> string list \<Rightarrow>
     (error + card list) \<times> card list \<times> card list \<times> string list" where
  "player_turn deck hand [] = (Inl EOFError, deck, hand, [])"
| "player_turn deck hand (choice # rest) =
     (if choice = ''h'' \<or> choice = ''hit'' then
        (case pop deck of
           (Inl e, deck') \<Rightarrow> (Inl e, deck', hand, rest)
         | (Inr c, deck') \<Rightarrow>
             (if hand_value (hand @ [c]) > 21 then (Inr (hand @ [c]), deck', hand @ [c], rest)
              else player_turn deck' (hand @ [c]) rest))
      else if choice = ''s'' \<or> choice = ''stand'' then (Inr hand, deck, hand, rest)
      else player_turn deck hand rest)"

text \<open>
  \<open>dealer_turn\<close> of the web program: draw while the value is at most 16. The result
  comes with the deck and the hand as the loop left them.
\<close>

function dealer_turn ::
  "card list \<Rightarrow> card list \<Rightarrow> (error + card list) \<times> card list \<times> card list" where
  "dealer_turn deck hand =
     (if hand_value hand \<le> 16 then
        (case pop deck of
           (Inl e, deck') \<Rightarrow> (Inl e, deck', hand)
         | (Inr c, deck') \<Rightarrow> dealer_turn deck' (hand @ [c]))
      else (Inr hand, deck, hand))"
  by pat_completeness auto
termination
  by (relation "measure (\<lambda>(deck, hand). length deck)")
     (auto simp: pop_def split: if_splits)

text \<open>
  \<open>dealer_turn\<close> of the console program first prints the hole card \<open>hand[1]\<close>, which
  needs two cards in the hand, and then runs the same loop.
\<close>

definition dealer_turn_console ::
  "card list \<Rightarrow> card list \<Rightarrow> (error + card list) \<times> card list \<times> card list" where
  "dealer_turn_console deck hand =
     (if length hand < 2 then (Inl IndexError, deck, hand) else dealer_turn deck hand)"

section \<open>Outcome\<close>

definition determine_winner :: "card list \<Rightarrow> card list \<Rightarrow> string" where
  "determine_winner player dealer =
     (let p_val = hand_value player; d_val = hand_value dealer
      in if p_val > 21 then ''dealer''
         else if d_val > 21 then ''player''
         else if p_val > d_val then ''player''
         else ''dealer'')"

section \<open>The console round\<close>

text \<open>
  \<open>play_round\<close> prints its verdict and returns nothing; its lists are local. The model
  returns the verdict line with the final deck, player hand and dealer hand, or the
  exception that ends the round.
\<close>

definition play_round ::
  "rng \<Rightarrow> string list \<Rightarrow> error + string \<times> card list \<times> card list \<times> card list" where
  "play_round g inputs =
     (case deal_initial_hands (fst (build_deck True g)) of
        (Inl e, _) \<Rightarrow> Inl e
      | (Inr (player, dealer), deck) \<Rightarrow>
     (case player_turn deck player inputs of
        (Inl e, _) \<Rightarrow> Inl e
      | (Inr player', deck', _) \<Rightarrow>
          if hand_value player' > 21 then Inr (''Dealer wins!'', deck', player', dealer)
          else
     (case dealer_turn_console deck' dealer of
        (Inl e, _) \<Rightarrow> Inl e
      | (Inr dealer', deck'', _) \<Rightarrow>
          (let result = determine_winner player' dealer'
           in Inr (if result = ''player'' then ''You win!''
                   else if result = ''dealer'' then ''Dealer wins! (Dealer wins ties)''
                   else ''Push (tie).'', deck'', player', dealer')))))"

section \<open>The web session\<close>

text \<open>
  A session that \<open>start\<close> has filled holds the deck, the two hands and the state.
  On such a session the handler \<open>game\<close> is modelled first; the handler on a session
  with missing keys follows in the next section. The handler reads the lists from the
  session and changes them in place, so a draw shows in the session at once; the state
  goes through a local variable and is stored at the end.
\<close>

record session =
  s_deck :: "card list"
  s_player :: "card list"
  s_dealer :: "card list"
  s_state :: string

datatype http_method = GET | POST

text \<open>The values the page is rendered from (the formatted hands are left out).\<close>

record response =
  player_value :: int
  dealer_value :: int
  r_state :: string
  message :: string

definition start :: "rng \<Rightarrow> error + session" where
  "start g =
     (case deal_initial_hands (fst (build_deck True g)) of
        (Inl e, _) \<Rightarrow> Inl e
      | (Inr (player, dealer), deck) \<Rightarrow>
          Inr \<lparr>s_deck = deck, s_player = player, s_dealer = dealer, s_state = ''playing''\<rparr>)"

text \<open>
  The first block of \<open>game\<close>: a POST in state \<open>playing\<close> applies the action. The result
  is the local pair \<open>(state, message)\<close>.
\<close>

definition game_action ::
  "http_method \<Rightarrow> string option \<Rightarrow> session \<Rightarrow>
     (error + string \<times> string) \<times> session" where
  "game_action m action s =
     (if m = POST \<and> s_state s = ''playing'' then
        (if action = Some ''hit'' then
           (case pop (s_deck s) of
              (Inl e, _) \<Rightarrow> (Inl e, s)
            | (Inr c, deck') \<Rightarrow>
                (let s' = s\<lparr>s_deck := deck', s_player := s_player s @ [c]\<rparr>
                 in if hand_value (s_player s') > 21
                    then (Inr (''done'', ''You busted! Dealer wins.''), s')
                    else (Inr (''playing'', []), s')))
         else if action = Some ''stand'' then
           (Inr (''dealer'', []), s\<lparr>s_state := ''dealer''\<rparr>)
         else (Inr (''playing'', []), s))
      else (Inr (s_state s, []), s))"

text \<open>The second block: in state \<open>dealer\<close> the dealer plays and the round is resolved.\<close>

definition game_dealer ::
  "string \<times> string \<Rightarrow> session \<Rightarrow> (error + string \<times> string) \<times> session" where
  "game_dealer sm s =
     (case sm of (state, msg) \<Rightarrow>
        if state = ''dealer'' then
          (case dealer_turn (s_deck s) (s_dealer s) of
             (Inl e, deck', hand') \<Rightarrow> (Inl e, s\<lparr>s_deck := deck', s_dealer := hand'\<rparr>)
           | (Inr dealer, deck', _) \<Rightarrow>
               (let winner = determine_winner (s_player s) dealer
                in (Inr (''done'',
                         if winner = ''player'' then ''You win!''
                         else ''Dealer wins! (Dealer wins ties)''),
                    s\<lparr>s_deck := deck', s_dealer := dealer, s_state := ''done''\<rparr>)))
        else (Inr (state, msg), s))"

text \<open>
  The last block: the state is stored, then the page is rendered. While the state is
  \<open>playing\<close> only the dealer's first card \<open>dealer[0]\<close> is shown and counted.
\<close>

definition game_render :: "string \<times> string \<Rightarrow> session \<Rightarrow> (error + response) \<times> session" where
  "game_render sm s =
     (case sm of (state, msg) \<Rightarrow>
        (let s' = s\<lparr>s_state := state\<rparr>
         in if state = ''playing'' then
              (case s_dealer s' of
                 [] \<Rightarrow> (Inl IndexError, s')
               | c # _ \<Rightarrow>
                   (Inr \<lparr>player_value = hand_value (s_player s'), dealer_value = hand_value [c],
                         r_state = state, message = msg\<rparr>, s'))
            else
              (Inr \<lparr>player_value = hand_value (s_player s'),
                    dealer_value = hand_value (s_dealer s'),
                    r_state = state, message = msg\<rparr>, s')))"

definition game :: "http_method \<Rightarrow> string option \<Rightarrow> session \<Rightarrow> (error + response) \<times> session" where
  "game m action s =
     (case game_action m action s of
        (Inl e, s1) \<Rightarrow> (Inl e, s1)
      | (Inr sm, s1) \<Rightarrow>
     (case game_dealer sm s1 of
        (Inl e, s2) \<Rightarrow> (Inl e, s2)
      | (Inr sm', s2) \<Rightarrow> game_render sm' s2))"

section \<open>The web session with missing keys\<close>

text \<open>
  The session is a dictionary: before \<open>start\<close> and after \<open>reset\<close> it is empty, and
  \<open>session.get\<close> gives \<open>None\<close> for a missing list and \<open>playing\<close> for a missing
  state. A field is \<open>None\<close> here when the key is missing or holds \<open>None\<close>.
\<close>

record store =
  st_deck :: "card list option"
  st_player :: "card list option"
  st_dealer :: "card list option"
  st_state :: "string option"

definition no_session :: store where
  "no_session = \<lparr>st_deck = None, st_player = None, st_dealer = None, st_state = None\<rparr>"

definition filled :: "session \<Rightarrow> store" where
  "filled s =
     \<lparr>st_deck = Some (s_deck s), st_player = Some (s_player s), st_dealer = Some (s_dealer s),
      st_state = Some (s_state s)\<rparr>"

text \<open>\<open>reset\<close> clears the session.\<close>

definition reset :: "store \<Rightarrow> store" where
  "reset st = no_session"

text \<open>
  The first block of \<open>game\<close>. In \<open>player.append(deck.pop())\<close> the method of the
  player's list is looked up first, then the one of the deck, then the deck is popped.
\<close>

definition request_action ::
  "http_method \<Rightarrow> string option \<Rightarrow> store \<Rightarrow>
     (error + string \<times> string) \<times> store" where
  "request_action m action st =
     (let state = (case st_state st of None \<Rightarrow> ''playing'' | Some x \<Rightarrow> x)
      in if m = POST \<and> state = ''playing'' then
           (if action = Some ''hit'' then
              (case st_player st of
                 None \<Rightarrow> (Inl AttributeError, st)
               | Some player \<Rightarrow>
              (case st_deck st of
                 None \<Rightarrow> (Inl AttributeError, st)
               | Some deck \<Rightarrow>
              (case pop deck of
                 (Inl e, _) \<Rightarrow> (Inl e, st)
               | (Inr c, deck') \<Rightarrow>
                   (let st' = st\<lparr>st_deck := Some deck', st_player := Some (player @ [c])\<rparr>
                    in if hand_value (player @ [c]) > 21
                       then (Inr (''done'', ''You busted! Dealer wins.''), st')
                       else (Inr (''playing'', []), st')))))
            else if action = Some ''stand'' then
              (Inr (''dealer'', []), st\<lparr>st_state := Some ''dealer''\<rparr>)
            else (Inr (''playing'', []), st))
         else (Inr (state, []), st))"

text \<open>
  \<open>dealer_turn\<close> as the handler calls it: the loop test iterates the hand, and a draw
  calls \<open>pop\<close> on the deck.
\<close>

definition dealer_turn_on ::
  "card list option \<Rightarrow> card list option \<Rightarrow>
     (error + card list) \<times> card list option \<times> card list option" where
  "dealer_turn_on deck hand =
     (case hand of
        None \<Rightarrow> (Inl TypeError, deck, None)
      | Some h \<Rightarrow>
          (case deck of
             None \<Rightarrow>
               if hand_value h \<le> 16 then (Inl AttributeError, None, Some h)
               else (Inr h, None, Some h)
           | Some d \<Rightarrow>
               (case dealer_turn d h of (r, d', h') \<Rightarrow> (r, Some d', Some h'))))"

text \<open>
  The second block of \<open>game\<close>. \<open>determine_winner\<close> iterates the player's hand first.
\<close>

definition request_dealer ::
  "string \<times> string \<Rightarrow> store \<Rightarrow> (error + string \<times> string) \<times> store" where
  "request_dealer sm st =
     (case sm of (state, msg) \<Rightarrow>
        if state = ''dealer'' then
          (case dealer_turn_on (st_deck st) (st_dealer st) of
             (Inl e, deck', hand') \<Rightarrow> (Inl e, st\<lparr>st_deck := deck', st_dealer := hand'\<rparr>)
           | (Inr dealer, deck', _) \<Rightarrow>
               (case st_player st of
                  None \<Rightarrow> (Inl TypeError, st\<lparr>st_deck := deck', st_dealer := Some dealer\<rparr>)
                | Some player \<Rightarrow>
                    (let winner = determine_winner player dealer
                     in (Inr (''done'',
                              if winner = ''player'' then ''You win!''
                              else ''Dealer wins! (Dealer wins ties)''),
                         st\<lparr>st_deck := deck', st_dealer := Some dealer,
                            st_state := Some ''done''\<rparr>))))
        else (Inr (state, msg), st))"

text \<open>
  The last block of \<open>game\<close>: the four keys are stored, then the page is rendered, the
  player's hand first.
\<close>

definition request_render ::
  "string \<times> string \<Rightarrow> store \<Rightarrow> (error + response) \<times> store" where
  "request_render sm st =
     (case sm of (state, msg) \<Rightarrow>
        (let st' = st\<lparr>st_state := Some state\<rparr>
         in case st_player st' of
              None \<Rightarrow> (Inl TypeError, st')
            | Some player \<Rightarrow>
                (case st_dealer st' of
                   None \<Rightarrow> (Inl TypeError, st')
                 | Some dealer \<Rightarrow>
                     if state = ''playing'' then
                       (case dealer of
                          [] \<Rightarrow> (Inl IndexError, st')
                        | c # _ \<Rightarrow>
                            (Inr \<lparr>player_value = hand_value player,
                                  dealer_value = hand_value [c],
                                  r_state = state, message = msg\<rparr>, st'))
                     else
                       (Inr \<lparr>player_value = hand_value player,
                             dealer_value = hand_value dealer,
                             r_state = state, message = msg\<rparr>, st'))))"

text \<open>The handler \<open>game\<close> on any session.\<close>

definition game_request ::
  "http_method \<Rightarrow> string option \<Rightarrow> store \<Rightarrow> (error + response) \<times> store" where
  "game_request m action st =
     (case request_action m action st of
        (Inl e, st1) \<Rightarrow> (Inl e, st1)
      | (Inr sm, st1) \<Rightarrow>
     (case request_dealer sm st1 of
        (Inl e, st2) \<Rightarrow> (Inl e, st2)
      | (Inr sm', st2) \<Rightarrow> request_render sm' st2))"

section \<open>Reference definitions\<close>

text \<open>
  The totals the scoring rule speaks of: an Ace counts 11 or 1, a face card 10, a number
  card its number; \<open>spec_totals\<close> lists the sum of every choice.
\<close>

fun spec_counts :: "rank \<Rightarrow> int list" where
  "spec_counts Ace = [11, 1]"
| "spec_counts Jack = [10]"
| "spec_counts Queen = [10]"
| "spec_counts King = [10]"
| "spec_counts Two = [2]"
| "spec_counts Three = [3]"
| "spec_counts Four = [4]"
| "spec_counts Five = [5]"
| "spec_counts Six = [6]"
| "spec_counts Seven = [7]"
| "spec_counts Eight = [8]"
| "spec_counts Nine = [9]"
| "spec_counts Ten = [10]"

fun spec_totals :: "card list \<Rightarrow> int list" where
  "spec_totals [] = [0]"
| "spec_totals (c # cs) = concat (map (\<lambda>p. map (\<lambda>t. p + t) (spec_totals cs)) (spec_counts (fst c)))"

text \<open>The total with every Ace at 1, and the number of Aces.\<close>

definition low_total :: "card list \<Rightarrow> int" where
  "low_total hand = (\<Sum>c\<leftarrow>hand. if fst c = Ace then 1 else card_value (fst c))"

definition aces_of :: "card list \<Rightarrow> nat" where
  "aces_of hand = length (filter (\<lambda>c. fst c = Ace) hand)"

section \<open>Sessions the web program holds\<close>

text \<open>
  The sessions the web program can hold: the empty one, the one \<open>start\<close> stores
  (whatever was there before), the one \<open>reset\<close> leaves, and every session a request
  to \<open>game\<close> leaves behind, whatever the request and however it ends.
\<close>

inductive held :: "store \<Rightarrow> bool" where
  held_empty: "held no_session"
| held_start: "start g = Inr s \<Longrightarrow> held (filled s)"
| held_reset: "held st \<Longrightarrow> held (reset st)"
| held_game: "held st \<Longrightarrow> game_request m a st = (r, st') \<Longrightarrow> held st'"

text \<open>
  What holds of a session in a round: the 52 cards are spread over the deck and the two
  hands, the state is \<open>playing\<close> or \<open>done\<close>, and while it is \<open>playing\<close> the player
  has not bust and the dealer holds the two dealt cards.
\<close>

definition round_inv :: "session \<Rightarrow> bool" where
  "round_inv s \<longleftrightarrow>
     length (s_deck s) + length (s_player s) + length (s_dealer s) = 52
     \<and> 2 \<le> length (s_dealer s)
     \<and> (s_state s = ''playing'' \<or> s_state s = ''done'')
     \<and> (s_state s = ''playing'' \<longrightarrow> hand_value (s_player s) \<le> 21 \<and> length (s_dealer s) = 2)"

declare soften.simps [simp del]
declare player_turn.simps(2) [simp del]
declare dealer_turn.simps [simp del]

section \<open>Properties of the hand value\<close>

lemma fold_count_card:
  "fold count_card hand (v, a) = (v + low_total hand + 10 * int (aces_of hand), a + int (aces_of hand))"
  by (induction hand arbitrary: v a) (auto simp: count_card_def low_total_def aces_of_def)

lemma hand_value_soften:
  "hand_value hand = soften (low_total hand + 10 * int (aces_of hand)) (int (aces_of hand))"
  by (simp add: hand_value_def fold_count_card)

lemma soften_steps:
  "0 \<le> a \<Longrightarrow> \<exists>k. 0 \<le> k \<and> k \<le> a \<and> soften v a = v - 10 * k
      \<and> (21 < soften v a \<longrightarrow> k = a) \<and> (\<forall>k'. 0 \<le> k' \<and> k' < k \<longrightarrow> 21 < v - 10 * k')"
proof (induction v a rule: soften.induct)
  case (1 v a)
  show ?case
  proof (cases "v > 21 \<and> a > 0")
    case True
    then have "0 \<le> a - 1" by simp
    from "1.IH"[OF True this] obtain k where k: "0 \<le> k" "k \<le> a - 1"
      "soften (v - 10) (a - 1) = v - 10 - 10 * k"
      "21 < soften (v - 10) (a - 1) \<longrightarrow> k = a - 1"
      "\<forall>k'. 0 \<le> k' \<and> k' < k \<longrightarrow> 21 < v - 10 - 10 * k'" by blast
    have eq: "soften v a = soften (v - 10) (a - 1)"
      using True by (subst soften.simps) simp
    have below: "\<forall>k'. 0 \<le> k' \<and> k' < k + 1 \<longrightarrow> 21 < v - 10 * k'"
    proof (intro allI impI)
      fix k' assume h: "0 \<le> k' \<and> k' < k + 1"
      show "21 < v - 10 * k'"
      proof (cases "k' = 0")
        case True with \<open>v > 21 \<and> a > 0\<close> show ?thesis by simp
      next
        case False
        with h have "0 \<le> k' - 1 \<and> k' - 1 < k" by simp
        with k(5) have "21 < v - 10 - 10 * (k' - 1)" by blast
        then show ?thesis by simp
      qed
    qed
    have "0 \<le> k + 1" "k + 1 \<le> a" using k(1,2) by simp_all
    moreover have "soften v a = v - 10 * (k + 1)" using eq k(3) by simp
    moreover have "21 < soften v a \<longrightarrow> k + 1 = a" using eq k(4) by auto
    ultimately show ?thesis using below by blast
  next
    case False
    then have eq: "soften v a = v" by (subst soften.simps) auto
    have "soften v a = v - 10 * 0" using eq by simp
    moreover have "21 < soften v a \<longrightarrow> 0 = a" using eq False "1.prems" by auto
    moreover have "\<forall>k'. 0 \<le> k' \<and> k' < (0::int) \<longrightarrow> 21 < v - 10 * k'" by simp
    ultimately show ?thesis using "1.prems" by (intro exI[of _ 0]) simp
  qed
qed

lemma set_spec_totals:
  "set (spec_totals hand) = (\<lambda>k. low_total hand + 10 * int k) ` {0..aces_of hand}"
proof (induction hand)
  case Nil
  then show ?case by (simp add: low_total_def aces_of_def)
next
  case (Cons c cs)
  obtain r s where c: "c = (r, s)" by (cases c)
  show ?case
  proof (cases "r = Ace")
    case True
    have "set (spec_totals (c # cs)) = (\<lambda>t. 11 + t) ` set (spec_totals cs) \<union> (\<lambda>t. 1 + t) ` set (spec_totals cs)"
      using c True by auto
    also have "\<dots> = (\<lambda>k. low_total cs + 1 + 10 * int k) ` {0..Suc (aces_of cs)}"
      unfolding Cons.IH
    proof (intro set_eqI iffI)
      fix x assume "x \<in> (+) 11 ` (\<lambda>k. low_total cs + 10 * int k) ` {0..aces_of cs} \<union> (+) 1 ` (\<lambda>k. low_total cs + 10 * int k) ` {0..aces_of cs}"
      then consider k where "k \<le> aces_of cs" "x = 11 + (low_total cs + 10 * int k)"
        | k where "k \<le> aces_of cs" "x = 1 + (low_total cs + 10 * int k)" by auto
      then show "x \<in> (\<lambda>k. low_total cs + 1 + 10 * int k) ` {0..Suc (aces_of cs)}"
      proof cases
        case 1
        then have "x = low_total cs + 1 + 10 * int (Suc k)" "Suc k \<in> {0..Suc (aces_of cs)}" by auto
        then show ?thesis by blast
      next
        case 2
        then have "x = low_total cs + 1 + 10 * int k" "k \<in> {0..Suc (aces_of cs)}" by auto
        then show ?thesis by blast
      qed
    next
      fix x assume "x \<in> (\<lambda>k. low_total cs + 1 + 10 * int k) ` {0..Suc (aces_of cs)}"
      then obtain k where k: "k \<le> Suc (aces_of cs)" "x = low_total cs + 1 + 10 * int k" by auto
      show "x \<in> (+) 11 ` (\<lambda>k. low_total cs + 10 * int k) ` {0..aces_of cs} \<union> (+) 1 ` (\<lambda>k. low_total cs + 10 * int k) ` {0..aces_of cs}"
      proof (cases k)
        case 0
        with k have "x = 1 + (low_total cs + 10 * int 0)" by simp
        moreover have "(0::nat) \<in> {0..aces_of cs}" by simp
        ultimately show ?thesis by blast
      next
        case (Suc j)
        with k have "x = 11 + (low_total cs + 10 * int j)" "j \<in> {0..aces_of cs}" by auto
        then show ?thesis by blast
      qed
    qed
    also have "\<dots> = (\<lambda>k. low_total (c # cs) + 10 * int k) ` {0..aces_of (c # cs)}"
      using c True by (simp add: low_total_def aces_of_def add.commute)
    finally show ?thesis .
  next
    case False
    then have "spec_counts r = [card_value r]" by (cases r) auto
    then have "set (spec_totals (c # cs)) = (\<lambda>t. card_value r + t) ` set (spec_totals cs)"
      using c by simp
    also have "\<dots> = (\<lambda>k. card_value r + (low_total cs + 10 * int k)) ` {0..aces_of cs}"
      unfolding Cons.IH by (simp add: image_image)
    also have "\<dots> = (\<lambda>k. low_total (c # cs) + 10 * int k) ` {0..aces_of (c # cs)}"
      using c False by (simp add: low_total_def aces_of_def add.assoc)
    finally show ?thesis .
  qed
qed


lemma hand_value_choice:
  "\<exists>k\<le>aces_of hand. hand_value hand = low_total hand + 10 * int k
      \<and> (21 < hand_value hand \<longrightarrow> k = 0)
      \<and> (\<forall>k'\<le>aces_of hand. k < k' \<longrightarrow> 21 < low_total hand + 10 * int k')"
proof -
  let ?a = "int (aces_of hand)" and ?v = "low_total hand + 10 * int (aces_of hand)"
  have "0 \<le> ?a" by simp
  from soften_steps[OF this, of ?v] obtain j where j: "0 \<le> j" "j \<le> ?a"
    "soften ?v ?a = ?v - 10 * j" "21 < soften ?v ?a \<longrightarrow> j = ?a"
    "\<forall>k'. 0 \<le> k' \<and> k' < j \<longrightarrow> 21 < ?v - 10 * k'" by blast
  define k where "k = aces_of hand - nat j"
  have kj: "int k = ?a - j" using j(1,2) by (simp add: k_def)
  have "k \<le> aces_of hand" by (simp add: k_def)
  moreover have "hand_value hand = low_total hand + 10 * int k"
    using j(3) kj by (simp add: hand_value_soften)
  moreover have "21 < hand_value hand \<longrightarrow> k = 0"
  proof
    assume "21 < hand_value hand"
    then have "j = ?a" using j(4) by (simp add: hand_value_soften)
    with kj have "int k = 0" by simp
    then show "k = 0" by simp
  qed
  moreover have "\<forall>k'\<le>aces_of hand. k < k' \<longrightarrow> 21 < low_total hand + 10 * int k'"
  proof (intro allI impI)
    fix k' assume h: "k' \<le> aces_of hand" "k < k'"
    have "0 \<le> ?a - int k' \<and> ?a - int k' < j" using h kj by linarith
    with j(5) have "21 < ?v - 10 * (?a - int k')" by blast
    then show "21 < low_total hand + 10 * int k'" by simp
  qed
  ultimately show ?thesis by blast
qed

lemma hand_value_best:
  assumes "t \<in> set (spec_totals hand)" "t \<le> 21"
  shows "hand_value hand \<in> set (spec_totals hand)" "hand_value hand \<le> 21" "t \<le> hand_value hand"
proof -
  from hand_value_choice[of hand] obtain k where k: "k \<le> aces_of hand"
    "hand_value hand = low_total hand + 10 * int k" "21 < hand_value hand \<longrightarrow> k = 0"
    "\<forall>k'\<le>aces_of hand. k < k' \<longrightarrow> 21 < low_total hand + 10 * int k'" by blast
  from assms(1) obtain k' where k': "k' \<le> aces_of hand" "t = low_total hand + 10 * int k'"
    by (auto simp: set_spec_totals)
  show "hand_value hand \<in> set (spec_totals hand)"
    using k(1,2) by (auto simp: set_spec_totals)
  have "\<not> k < k'" using k(4) k' assms(2) by auto
  then show "t \<le> hand_value hand" using k(2) k'(2) by simp
  show "hand_value hand \<le> 21"
  proof (rule ccontr)
    assume "\<not> hand_value hand \<le> 21"
    then have "k = 0" using k(3) by simp
    then have "hand_value hand \<le> t" using k(2) k'(2) by simp
    with assms(2) \<open>\<not> hand_value hand \<le> 21\<close> show False by simp
  qed
qed

lemma hand_value_bust:
  assumes "\<forall>t\<in>set (spec_totals hand). 21 < t"
  shows "hand_value hand \<in> set (spec_totals hand)" "\<forall>t\<in>set (spec_totals hand). hand_value hand \<le> t"
proof -
  from hand_value_choice[of hand] obtain k where k: "k \<le> aces_of hand"
    "hand_value hand = low_total hand + 10 * int k" "21 < hand_value hand \<longrightarrow> k = 0" by blast
  show mem: "hand_value hand \<in> set (spec_totals hand)"
    using k(1,2) by (auto simp: set_spec_totals)
  with assms have "21 < hand_value hand" by blast
  with k have "hand_value hand = low_total hand" by simp
  then show "\<forall>t\<in>set (spec_totals hand). hand_value hand \<le> t"
    by (auto simp: set_spec_totals)
qed

lemma hand_value_examples:
  "hand_value [(Ace, s1), (Ace, s2)] = 12"
  "hand_value [(Ace, s1), (Nine, s2), (Ace, s3)] = 21"
  "hand_value [(King, s1), (Queen, s2), (Ace, s3)] = 21"
  "hand_value [(Ten, s1), (Ten, s2), (Five, s3)] = 25"
  by (simp_all add: hand_value_def count_card_def soften.simps)

text \<open>
  Claim C1. For every hand, \<open>hand_value\<close> is the greatest total not above 21 among
  the totals that count each Ace as 11 or 1, and when every such total is above 21 it is
  the least of them, reported as it is. The four sample hands evaluate to 12, 21, 21
  and 25.
\<close>

theorem C1_hand_value_best_total:
  "hand_value hand =
     (if \<exists>t\<in>set (spec_totals hand). t \<le> 21
      then Max {t \<in> set (spec_totals hand). t \<le> 21}
      else Min (set (spec_totals hand)))
   \<and> hand_value [(Ace, s1), (Ace, s2)] = 12
   \<and> hand_value [(Ace, s1), (Nine, s2), (Ace, s3)] = 21
   \<and> hand_value [(King, s1), (Queen, s2), (Ace, s3)] = 21
   \<and> hand_value [(Ten, s1), (Ten, s2), (Five, s3)] = 25"
proof -
  have "hand_value hand =
     (if \<exists>t\<in>set (spec_totals hand). t \<le> 21
      then Max {t \<in> set (spec_totals hand). t \<le> 21}
      else Min (set (spec_totals hand)))"
  proof (cases "\<exists>t\<in>set (spec_totals hand). t \<le> 21")
    case True
    then obtain t where t: "t \<in> set (spec_totals hand)" "t \<le> 21" by blast
    have "Max {t \<in> set (spec_totals hand). t \<le> 21} = hand_value hand"
    proof (rule Max_eqI)
      show "finite {t \<in> set (spec_totals hand). t \<le> 21}" by simp
      show "\<And>y. y \<in> {t \<in> set (spec_totals hand). t \<le> 21} \<Longrightarrow> y \<le> hand_value hand"
        using hand_value_best(3) by blast
      show "hand_value hand \<in> {t \<in> set (spec_totals hand). t \<le> 21}"
        using hand_value_best(1,2)[OF t] by simp
    qed
    with True show ?thesis by simp
  next
    case False
    then have all: "\<forall>t\<in>set (spec_totals hand). 21 < t" by auto
    have "Min (set (spec_totals hand)) = hand_value hand"
    proof (rule Min_eqI)
      show "finite (set (spec_totals hand))" by simp
      show "\<And>y. y \<in> set (spec_totals hand) \<Longrightarrow> hand_value hand \<le> y"
        using hand_value_bust(2)[OF all] by blast
      show "hand_value hand \<in> set (spec_totals hand)"
        using hand_value_bust(1)[OF all] .
    qed
    with False show ?thesis by simp
  qed
  then show ?thesis by (simp add: hand_value_examples)
qed

lemma low_total_mset: "low_total hand = (\<Sum>c\<in>#mset hand. if fst c = Ace then 1 else card_value (fst c))"
  by (simp add: low_total_def sum_mset_sum_list[symmetric] del: sum_mset_sum_list)

lemma aces_of_mset: "aces_of hand = size (filter_mset (\<lambda>c. fst c = Ace) (mset hand))"
  by (simp add: aces_of_def flip: mset_filter)

text \<open>
  Claim C7. Two hands with the same cards in any order have the same value.
\<close>

theorem C7_hand_value_reorder:
  "mset hand' = mset hand \<Longrightarrow> hand_value hand' = hand_value hand"
  by (simp add: hand_value_soften low_total_mset aces_of_mset)


theorem C1_witness:
  "(\<exists>t\<in>set (spec_totals [(Ace, Spades), (Nine, Hearts), (Ace, Hearts)]). t \<le> 21)
   \<and> Max {t \<in> set (spec_totals [(Ace, Spades), (Nine, Hearts), (Ace, Hearts)]). t \<le> 21} = 21
   \<and> \<not> (\<exists>t\<in>set (spec_totals [(Ten, Spades), (Ten, Hearts), (Five, Hearts)]). t \<le> 21)
   \<and> Min (set (spec_totals [(Ten, Spades), (Ten, Hearts), (Five, Hearts)])) = 25"
proof -
  let ?h = "[(Ace, Spades), (Nine, Hearts), (Ace, Hearts)]"
  let ?b = "[(Ten, Spades), (Ten, Hearts), (Five, Hearts)]"
  have soft: "\<exists>t\<in>set (spec_totals ?h). t \<le> 21" by simp
  have bust: "\<not> (\<exists>t\<in>set (spec_totals ?b). t \<le> 21)" by simp
  have "hand_value ?h = Max {t \<in> set (spec_totals ?h). t \<le> 21}"
    using C1_hand_value_best_total [of ?h Spades Hearts Hearts] soft by presburger
  moreover have "hand_value ?b = Min (set (spec_totals ?b))"
    using C1_hand_value_best_total [of ?b Spades Hearts Hearts] bust by presburger
  ultimately show ?thesis
    using soft bust hand_value_examples(2) [of Spades Hearts Hearts]
      hand_value_examples(4) [of Spades Hearts Hearts] by presburger
qed

theorem C7_witness:
  "mset [(Ace, Spades), (Nine, Hearts), (Ace, Hearts)] = mset [(Nine, Hearts), (Ace, Hearts), (Ace, Spades)]
   \<and> hand_value [(Ace, Spades), (Nine, Hearts), (Ace, Hearts)] = 21
   \<and> hand_value [(Nine, Hearts), (Ace, Hearts), (Ace, Spades)] = 21"
proof -
  have m: "mset [(Ace, Spades), (Nine, Hearts), (Ace, Hearts)]
      = mset [(Nine, Hearts), (Ace, Hearts), (Ace, Spades)]" by simp
  from C7_hand_value_reorder [OF m] m show ?thesis
    using hand_value_examples(2) [of Spades Hearts Hearts] by simp
qed


section \<open>Properties of the outcome\<close>

text \<open>
  Claim C2. \<open>determine_winner\<close> always returns \<open>player\<close> or \<open>dealer\<close>, never
  \<open>push\<close>, by this cascade: the dealer wins when the player is above 21; otherwise the
  player wins when the dealer is above 21; otherwise the player wins when strictly
  ahead; otherwise the dealer wins, ties included. So 21 against 21 and 22 against 20
  go to the dealer, 20 against 22 and 19 against 18 to the player.
\<close>

theorem C2_determine_winner_cascade:
  "(determine_winner player dealer = ''player'' \<or> determine_winner player dealer = ''dealer'')
   \<and> determine_winner player dealer \<noteq> ''push''
   \<and> determine_winner player dealer =
       (if 21 < hand_value player then ''dealer''
        else if 21 < hand_value dealer then ''player''
        else if hand_value dealer < hand_value player then ''player''
        else ''dealer'')
   \<and> (hand_value player = hand_value dealer \<longrightarrow> determine_winner player dealer = ''dealer'')
   \<and> (hand_value player = 21 \<and> hand_value dealer = 21 \<longrightarrow>
         determine_winner player dealer = ''dealer'')
   \<and> (hand_value player = 22 \<and> hand_value dealer = 20 \<longrightarrow>
         determine_winner player dealer = ''dealer'')
   \<and> (hand_value player = 20 \<and> hand_value dealer = 22 \<longrightarrow>
         determine_winner player dealer = ''player'')
   \<and> (hand_value player = 19 \<and> hand_value dealer = 18 \<longrightarrow>
         determine_winner player dealer = ''player'')"
  by (simp add: determine_winner_def Let_def)

theorem C2_witness:
  "hand_value [(King, Spades), (Ace, Spades)] = 21
   \<and> hand_value [(Queen, Hearts), (Ace, Hearts)] = 21
   \<and> determine_winner [(King, Spades), (Ace, Spades)] [(Queen, Hearts), (Ace, Hearts)] = ''dealer''
   \<and> hand_value [(Ten, Spades), (Nine, Spades)] = 19
   \<and> hand_value [(Ten, Hearts), (Eight, Hearts)] = 18
   \<and> determine_winner [(Ten, Spades), (Nine, Spades)] [(Ten, Hearts), (Eight, Hearts)] = ''player''"
proof -
  have v: "hand_value [(King, Spades), (Ace, Spades)] = 21"
    "hand_value [(Queen, Hearts), (Ace, Hearts)] = 21"
    "hand_value [(Ten, Spades), (Nine, Spades)] = 19"
    "hand_value [(Ten, Hearts), (Eight, Hearts)] = 18"
    by (simp_all add: hand_value_def count_card_def soften.simps)
  have "hand_value [(King, Spades), (Ace, Spades)] = 21
        \<and> hand_value [(Queen, Hearts), (Ace, Hearts)] = 21 \<longrightarrow>
      determine_winner [(King, Spades), (Ace, Spades)] [(Queen, Hearts), (Ace, Hearts)] = ''dealer''"
    using C2_determine_winner_cascade
      [of "[(King, Spades), (Ace, Spades)]" "[(Queen, Hearts), (Ace, Hearts)]"]
    by (elim conjE)
  moreover have "hand_value [(Ten, Spades), (Nine, Spades)] = 19
        \<and> hand_value [(Ten, Hearts), (Eight, Hearts)] = 18 \<longrightarrow>
      determine_winner [(Ten, Spades), (Nine, Spades)] [(Ten, Hearts), (Eight, Hearts)] = ''player''"
    using C2_determine_winner_cascade
      [of "[(Ten, Spades), (Nine, Spades)]" "[(Ten, Hearts), (Eight, Hearts)]"]
    by (elim conjE)
  ultimately show ?thesis
    using v by blast
qed

section \<open>Properties of drawing and dealing\<close>

lemma pop_snoc: "pop (xs @ [x]) = (Inr x, xs)"
  by (simp add: pop_def)

lemma pop_Nil: "pop [] = (Inl IndexError, [])"
  by (simp add: pop_def)

lemma deal_initial_hands_four:
  "deal_initial_hands (rest @ [c2, c1, p2, p1]) = (Inr ([p1, p2], [c1, c2]), rest)"
proof -
  have "rest @ [c2, c1, p2, p1] = (rest @ [c2, c1, p2]) @ [p1]" by simp
  then have 1: "pop (rest @ [c2, c1, p2, p1]) = (Inr p1, rest @ [c2, c1, p2])"
    by (simp only: pop_snoc)
  have "rest @ [c2, c1, p2] = (rest @ [c2, c1]) @ [p2]" by simp
  then have 2: "pop (rest @ [c2, c1, p2]) = (Inr p2, rest @ [c2, c1])"
    by (simp only: pop_snoc)
  have "rest @ [c2, c1] = (rest @ [c2]) @ [c1]" by simp
  then have 3: "pop (rest @ [c2, c1]) = (Inr c1, rest @ [c2])"
    by (simp only: pop_snoc)
  show ?thesis
    by (simp add: deal_initial_hands_def 1 2 3 pop_snoc)
qed

lemma deal_initial_hands_short:
  "length deck < 4 \<Longrightarrow> deal_initial_hands deck = (Inl IndexError, [])"
proof -
  assume "length deck < 4"
  then consider "deck = []" | a where "deck = [a]" | a b where "deck = [a, b]"
    | a b c where "deck = [a, b, c]"
    by (cases deck; cases "tl deck"; cases "tl (tl deck)"; cases "tl (tl (tl deck))") auto
  then show ?thesis
    by cases (simp_all add: deal_initial_hands_def pop_def)
qed

lemma length_four:
  "length xs = Suc (Suc (Suc (Suc 0))) \<Longrightarrow> \<exists>a b c d. xs = [a, b, c, d]"
  by (auto simp: length_Suc_conv)

lemma split_last_four:
  assumes "4 \<le> length deck"
  obtains rest c2 c1 p2 p1 where "deck = rest @ [c2, c1, p2, p1]"
proof -
  have "length (drop (length deck - 4) deck) = Suc (Suc (Suc (Suc 0)))"
    using assms by simp
  from length_four[OF this]
  obtain c2 c1 p2 p1 where "drop (length deck - 4) deck = [c2, c1, p2, p1]"
    by blast
  then have "deck = take (length deck - 4) deck @ [c2, c1, p2, p1]"
    by (metis append_take_drop_id)
  then show ?thesis by (rule that)
qed

text \<open>
  Claim C9. The deal takes the four cards at the end of the deck list: the player gets
  the last and the one before it, in that order, the dealer the next two; the deck is left
  with all other cards in their order, four shorter. A deck of fewer than four cards
  cannot be dealt.
\<close>

theorem C9_deal_from_top:
  "deal_initial_hands (rest @ [c2, c1, p2, p1]) = (Inr ([p1, p2], [c1, c2]), rest)
   \<and> (4 \<le> length deck \<longrightarrow>
        deal_initial_hands deck =
          (Inr ([deck ! (length deck - 1), deck ! (length deck - 2)],
                [deck ! (length deck - 3), deck ! (length deck - 4)]),
           take (length deck - 4) deck))
   \<and> (length deck < 4 \<longrightarrow> fst (deal_initial_hands deck) = Inl IndexError)"
proof (intro conjI impI)
  show "deal_initial_hands (rest @ [c2, c1, p2, p1]) = (Inr ([p1, p2], [c1, c2]), rest)"
    by (rule deal_initial_hands_four)
next
  assume len: "4 \<le> length deck"
  show "deal_initial_hands deck =
          (Inr ([deck ! (length deck - 1), deck ! (length deck - 2)],
                [deck ! (length deck - 3), deck ! (length deck - 4)]),
           take (length deck - 4) deck)"
  proof -
    from split_last_four[OF len] obtain rest c2 c1 p2 p1
      where deck: "deck = rest @ [c2, c1, p2, p1]" by blast
    show ?thesis
      unfolding deck deal_initial_hands_four by (simp add: nth_append)
  qed
next
  assume "length deck < 4"
  then show "fst (deal_initial_hands deck) = Inl IndexError"
    by (simp add: deal_initial_hands_short)
qed

theorem C9_witness:
  "4 \<le> length [(Two, Clubs), (Six, Hearts), (Nine, Hearts), (Seven, Spades), (Ten, Spades)]
   \<and> deal_initial_hands [(Two, Clubs), (Six, Hearts), (Nine, Hearts), (Seven, Spades), (Ten, Spades)]
       = (Inr ([(Ten, Spades), (Seven, Spades)], [(Nine, Hearts), (Six, Hearts)]), [(Two, Clubs)])
   \<and> length [(Two, Clubs), (Six, Hearts)] < 4
   \<and> fst (deal_initial_hands [(Two, Clubs), (Six, Hearts)]) = Inl IndexError"
  using C9_deal_from_top [of "[(Two, Clubs)]" "(Six, Hearts)" "(Nine, Hearts)" "(Seven, Spades)"
      "(Ten, Spades)" "[(Two, Clubs), (Six, Hearts)]"]
  by simp


section \<open>Properties of the deck\<close>

lemma nth_concat_rows:
  "i < length S \<Longrightarrow> j < length R \<Longrightarrow>
     concat (map (\<lambda>s. map (\<lambda>r. (r, s)) R) S) ! (length R * i + j) = (R ! j, S ! i)"
proof (induction S arbitrary: i)
  case Nil
  then show ?case by simp
next
  case (Cons s S)
  show ?case
  proof (cases i)
    case 0
    with Cons.prems show ?thesis by (simp add: nth_append)
  next
    case (Suc i')
    with Cons.prems have "i' < length S" by simp
    from Cons.IH[OF this Cons.prems(2)] Suc show ?thesis
      by (simp add: nth_append add.assoc)
  qed
qed

lemma unshuffled_deck:
  "build_deck False g = (concat (map (\<lambda>suit. map (\<lambda>rank. (rank, suit)) RANKS) SUITS), g)"
  by (simp add: build_deck_def)

lemma unshuffled_length: "length (fst (build_deck False g)) = 52"
  by (simp add: build_deck_def RANKS_def SUITS_def)

lemma unshuffled_distinct: "distinct (fst (build_deck False g))"
  by (simp add: build_deck_def RANKS_def SUITS_def)

lemma RANKS_all: "set RANKS = UNIV"
proof -
  have "r \<in> set RANKS" for r by (cases r) (simp_all add: RANKS_def)
  then show ?thesis by blast
qed

lemma SUITS_all: "set SUITS = UNIV"
proof -
  have "s \<in> set SUITS" for s by (cases s) (simp_all add: SUITS_def)
  then show ?thesis by blast
qed

lemma unshuffled_all: "set (fst (build_deck False g)) = UNIV"
proof -
  have "c \<in> set (fst (build_deck False g))" for c
  proof -
    obtain r s where c: "c = (r, s)" by (cases c)
    have "r \<in> set RANKS" "s \<in> set SUITS" by (simp_all add: RANKS_all SUITS_all)
    then show ?thesis unfolding c unshuffled_deck by auto
  qed
  then show ?thesis by blast
qed

lemma shuffle_steps_mset:
  "\<forall>i\<in>set is. i < length x \<Longrightarrow> mset (fst (fold shuffle_step is (x, g))) = mset x"
proof (induction "is" arbitrary: x g)
  case Nil
  then show ?case by simp
next
  case (Cons i "is")
  let ?j = "g 0 mod (i + 1)"
  let ?x = "x[i := x ! ?j, ?j := x ! i]"
  have i: "i < length x" using Cons.prems by simp
  have "?j < i + 1" by simp
  with i have j: "?j < length x" by linarith
  have step: "shuffle_step i (x, g) = (?x, \<lambda>k. g (Suc k))"
    by (simp add: shuffle_step_def randbelow_def)
  have "\<forall>i\<in>set is. i < length ?x" using Cons.prems by simp
  from Cons.IH[OF this] have "mset (fst (fold shuffle_step is (?x, \<lambda>k. g (Suc k)))) = mset ?x" .
  also have "mset ?x = mset x" using mset_swap[OF j i] .
  finally show ?case by (simp add: step)
qed

lemma shuffle_mset: "mset (fst (shuffle x g)) = mset x"
  unfolding shuffle_def by (rule shuffle_steps_mset) auto

lemma shuffled_mset:
  "mset (fst (build_deck True g)) = mset (fst (build_deck False g'))"
  by (simp add: build_deck_def shuffle_mset)

text \<open>
  Claim C8. Without shuffling, \<open>build_deck\<close> gives 52 distinct cards, every pair of a
  rank and a suit among them, in the fixed order suit by suit and rank by rank within
  a suit, and leaves the random source alone. With shuffling, whatever the random source,
  the result has the same cards as the unshuffled deck: again 52, distinct, all of them.
\<close>

theorem C8_build_deck_52:
  "length (fst (build_deck False g)) = 52
   \<and> distinct (fst (build_deck False g))
   \<and> set (fst (build_deck False g)) = UNIV
   \<and> (\<forall>i<4. \<forall>j<13. fst (build_deck False g) ! (13 * i + j) = (RANKS ! j, SUITS ! i))
   \<and> snd (build_deck False g) = g
   \<and> mset (fst (build_deck True g)) = mset (fst (build_deck False g'))
   \<and> length (fst (build_deck True g)) = 52
   \<and> distinct (fst (build_deck True g))
   \<and> set (fst (build_deck True g)) = UNIV"
proof -
  have order: "\<forall>i<4. \<forall>j<13. fst (build_deck False g) ! (13 * i + j) = (RANKS ! j, SUITS ! i)"
  proof (intro allI impI)
    fix i j :: nat assume "i < 4" "j < 13"
    then have "i < length SUITS" "j < length RANKS" by (simp_all add: RANKS_def SUITS_def)
    from nth_concat_rows[OF this]
    have "concat (map (\<lambda>s. map (\<lambda>r. (r, s)) RANKS) SUITS) ! (length RANKS * i + j)
        = (RANKS ! j, SUITS ! i)" .
    moreover have "length RANKS = 13" by (simp add: RANKS_def)
    ultimately show "fst (build_deck False g) ! (13 * i + j) = (RANKS ! j, SUITS ! i)"
      by (simp only: unshuffled_deck fst_conv)
  qed
  have m: "mset (fst (build_deck True g)) = mset (fst (build_deck False g))"
    by (rule shuffled_mset)
  have len: "length (fst (build_deck True g)) = 52"
    using mset_eq_length[OF m] by (simp only: unshuffled_length)
  have dist: "distinct (fst (build_deck True g))"
    using mset_eq_imp_distinct_iff[OF m] by (simp only: unshuffled_distinct)
  have all: "set (fst (build_deck True g)) = UNIV"
    using mset_eq_setD[OF m] by (simp only: unshuffled_all)
  have same: "snd (build_deck False g) = g"
    by (simp only: unshuffled_deck snd_conv)
  note facts = unshuffled_length[of g] unshuffled_distinct[of g] unshuffled_all[of g] order same
    shuffled_mset[of g g'] len dist all
  show ?thesis
    by (intro conjI) (rule facts)+
qed

theorem C8_witness:
  "(1::nat) < 4 \<and> (2::nat) < 13
   \<and> fst (build_deck False (\<lambda>_. 0)) ! 15 = (Four, Hearts)
   \<and> length (fst (build_deck True (\<lambda>_. 0))) = 52"
proof -
  have order: "\<forall>i<4. \<forall>j<13.
      fst (build_deck False (\<lambda>_. 0)) ! (13 * i + j) = (RANKS ! j, SUITS ! i)"
    and len: "length (fst (build_deck True (\<lambda>_. 0))) = 52"
    using C8_build_deck_52 [of "\<lambda>_. 0" "\<lambda>_. 0"] by blast+
  have "fst (build_deck False (\<lambda>_. 0)) ! (13 * 1 + 2) = (RANKS ! 2, SUITS ! 1)"
    by (rule order[rule_format]) simp_all
  then show ?thesis using len by (simp add: RANKS_def SUITS_def)
qed


section \<open>Properties of the dealer's turn\<close>

lemma dealer_turn_stand:
  "16 < hand_value hand \<Longrightarrow> dealer_turn deck hand = (Inr hand, deck, hand)"
  by (subst dealer_turn.simps) simp

lemma dealer_turn_empty:
  "hand_value hand \<le> 16 \<Longrightarrow> dealer_turn [] hand = (Inl IndexError, [], hand)"
  by (subst dealer_turn.simps) (simp add: pop_def)

lemma dealer_turn_draw:
  "hand_value hand \<le> 16 \<Longrightarrow> dealer_turn (deck @ [c]) hand = dealer_turn deck (hand @ [c])"
  by (subst dealer_turn.simps) (simp add: pop_snoc)

lemma dealer_turn_run:
  "\<exists>drawn rest. deck = rest @ rev drawn
     \<and> snd (dealer_turn deck hand) = (rest, hand @ drawn)
     \<and> (\<forall>k<length drawn. hand_value (hand @ take k drawn) \<le> 16)
     \<and> (fst (dealer_turn deck hand) = Inr (hand @ drawn) \<and> 17 \<le> hand_value (hand @ drawn)
        \<or> fst (dealer_turn deck hand) = Inl IndexError \<and> rest = []
            \<and> hand_value (hand @ drawn) \<le> 16)"
proof (induction deck arbitrary: hand rule: rev_induct)
  case Nil
  show ?case
  proof (cases "hand_value hand \<le> 16")
    case True
    then show ?thesis
      by (intro exI[of _ "[]"]) (simp add: dealer_turn_empty)
  next
    case False
    then show ?thesis
      by (intro exI[of _ "[]"]) (simp add: dealer_turn_stand)
  qed
next
  case (snoc c deck)
  show ?case
  proof (cases "hand_value hand \<le> 16")
    case True
    from snoc[of "hand @ [c]"] obtain drawn rest where d: "deck = rest @ rev drawn"
      "snd (dealer_turn deck (hand @ [c])) = (rest, (hand @ [c]) @ drawn)"
      "\<forall>k<length drawn. hand_value ((hand @ [c]) @ take k drawn) \<le> 16"
      "fst (dealer_turn deck (hand @ [c])) = Inr ((hand @ [c]) @ drawn)
          \<and> 17 \<le> hand_value ((hand @ [c]) @ drawn)
        \<or> fst (dealer_turn deck (hand @ [c])) = Inl IndexError \<and> rest = []
          \<and> hand_value ((hand @ [c]) @ drawn) \<le> 16"
      by blast
    have eq: "dealer_turn (deck @ [c]) hand = dealer_turn deck (hand @ [c])"
      using True by (rule dealer_turn_draw)
    have pre: "\<forall>k<length (c # drawn). hand_value (hand @ take k (c # drawn)) \<le> 16"
    proof (intro allI impI)
      fix k assume "k < length (c # drawn)"
      then show "hand_value (hand @ take k (c # drawn)) \<le> 16"
        using True d(3) by (cases k) auto
    qed
    have "deck @ [c] = rest @ rev (c # drawn)" using d(1) by simp
    moreover have "snd (dealer_turn (deck @ [c]) hand) = (rest, hand @ c # drawn)"
      using d(2) eq by simp
    moreover have "fst (dealer_turn (deck @ [c]) hand) = Inr (hand @ c # drawn)
          \<and> 17 \<le> hand_value (hand @ c # drawn)
        \<or> fst (dealer_turn (deck @ [c]) hand) = Inl IndexError \<and> rest = []
          \<and> hand_value (hand @ c # drawn) \<le> 16"
      using d(4) eq by simp
    ultimately show ?thesis using pre by blast
  next
    case False
    then have "16 < hand_value hand" by simp
    then show ?thesis
      by (intro exI[of _ "[]::card list"] exI[of _ "deck @ [c]"]) (simp add: dealer_turn_stand)
  qed
qed

text \<open>
  Every card adds at least 1 to the total with Aces at 1, and the hand value is never
  below that total, so a deck of 17 cards is always enough for the dealer to finish.
\<close>

lemma low_total_le: "low_total hand \<le> hand_value hand"
  using hand_value_choice[of hand] by auto

lemma low_total_snoc: "low_total hand + 1 \<le> low_total (hand @ [c])"
  by (cases c; cases "fst c") (auto simp: low_total_def)

lemma dealer_turn_enough:
  "17 \<le> low_total hand + int (length deck) \<Longrightarrow> \<exists>hand'. fst (dealer_turn deck hand) = Inr hand'"
proof (induction deck arbitrary: hand rule: rev_induct)
  case Nil
  then have "16 < hand_value hand" using low_total_le[of hand] by simp
  then show ?case by (simp add: dealer_turn_stand)
next
  case (snoc c deck)
  show ?case
  proof (cases "hand_value hand \<le> 16")
    case True
    have "17 \<le> low_total (hand @ [c]) + int (length deck)"
      using snoc.prems low_total_snoc[of hand c] by simp
    from snoc.IH[OF this] show ?thesis
      using True by (simp add: dealer_turn_draw)
  next
    case False
    then show ?thesis by (simp add: dealer_turn_stand)
  qed
qed

text \<open>
  Claim C3. For every deck and dealer hand, \<open>dealer_turn\<close> moves cards \<open>drawn\<close> from
  the end of the deck to the end of the hand, one at a time. Before each draw the hand's
  value is at most 16. It returns the hand once its value is at least 17 (a value above
  21 included), and raises \<open>IndexError\<close> only when the deck ran out with the value still
  at most 16. So a hand of at most 16 with a card in the deck draws at least one card, and
  a hand of at least 17 draws none. The console version does the same on any hand that
  holds the two dealt cards.
\<close>

theorem C3_dealer_draws_to_17:
  "(\<exists>drawn rest. deck = rest @ rev drawn
      \<and> snd (dealer_turn deck hand) = (rest, hand @ drawn)
      \<and> (\<forall>k<length drawn. hand_value (hand @ take k drawn) \<le> 16)
      \<and> (fst (dealer_turn deck hand) = Inr (hand @ drawn) \<and> 17 \<le> hand_value (hand @ drawn)
         \<or> fst (dealer_turn deck hand) = Inl IndexError \<and> rest = []
             \<and> hand_value (hand @ drawn) \<le> 16)
      \<and> (hand_value hand \<le> 16 \<and> deck \<noteq> [] \<longrightarrow> drawn \<noteq> [])
      \<and> (17 \<le> hand_value hand \<longrightarrow> drawn = []))
   \<and> (2 \<le> length hand \<longrightarrow> dealer_turn_console deck hand = dealer_turn deck hand)"
proof -
  from dealer_turn_run[of deck hand] obtain drawn rest where d: "deck = rest @ rev drawn"
    "snd (dealer_turn deck hand) = (rest, hand @ drawn)"
    "\<forall>k<length drawn. hand_value (hand @ take k drawn) \<le> 16"
    "fst (dealer_turn deck hand) = Inr (hand @ drawn) \<and> 17 \<le> hand_value (hand @ drawn)
      \<or> fst (dealer_turn deck hand) = Inl IndexError \<and> rest = []
          \<and> hand_value (hand @ drawn) \<le> 16"
    by blast
  have one: "hand_value hand \<le> 16 \<and> deck \<noteq> [] \<longrightarrow> drawn \<noteq> []"
  proof (intro impI notI)
    assume h: "hand_value hand \<le> 16 \<and> deck \<noteq> []" and "drawn = []"
    with d(1,4) show False by auto
  qed
  have none: "17 \<le> hand_value hand \<longrightarrow> drawn = []"
  proof (intro impI)
    assume h: "17 \<le> hand_value hand"
    show "drawn = []"
    proof (rule ccontr)
      assume "drawn \<noteq> []"
      then have "0 < length drawn" by simp
      with d(3) have "hand_value (hand @ take 0 drawn) \<le> 16" by blast
      with h show False by simp
    qed
  qed
  have "2 \<le> length hand \<longrightarrow> dealer_turn_console deck hand = dealer_turn deck hand"
    by (simp add: dealer_turn_console_def)
  with d one none show ?thesis by blast
qed

theorem C3_witness:
  "hand_value [(Six, Hearts), (Nine, Hearts)] \<le> 16
   \<and> [(King, Clubs), (Two, Clubs)] \<noteq> []
   \<and> 2 \<le> length [(Six, Hearts), (Nine, Hearts)]
   \<and> dealer_turn_console [(King, Clubs), (Two, Clubs)] [(Six, Hearts), (Nine, Hearts)]
       = dealer_turn [(King, Clubs), (Two, Clubs)] [(Six, Hearts), (Nine, Hearts)]
   \<and> (\<exists>drawn rest. [(King, Clubs), (Two, Clubs)] = rest @ rev drawn \<and> drawn \<noteq> []
        \<and> (\<forall>k<length drawn. hand_value ([(Six, Hearts), (Nine, Hearts)] @ take k drawn) \<le> 16)
        \<and> snd (dealer_turn [(King, Clubs), (Two, Clubs)] [(Six, Hearts), (Nine, Hearts)])
            = (rest, [(Six, Hearts), (Nine, Hearts)] @ drawn))"
proof -
  have v: "hand_value [(Six, Hearts), (Nine, Hearts)] \<le> 16"
    by (simp add: hand_value_def count_card_def soften.simps)
  have d: "[(King, Clubs), (Two, Clubs)] \<noteq> []" and l: "2 \<le> length [(Six, Hearts), (Nine, Hearts)]"
    by simp_all
  show ?thesis
    using C3_dealer_draws_to_17 [of "[(King, Clubs), (Two, Clubs)]" "[(Six, Hearts), (Nine, Hearts)]"]
      v d l by blast
qed



section \<open>Properties of the web handler\<close>

lemma game_action_result:
  assumes "game_action m a s = (Inr (st, msg), s1)"
  shows "s_dealer s1 = s_dealer s"
    and "st = ''playing'' \<or> st = ''done'' \<or> st = ''dealer'' \<or> st = s_state s"
    and "st = ''dealer'' \<longrightarrow> s_player s1 = s_player s \<and> s_deck s1 = s_deck s"
  using assms
  by (auto simp: game_action_def Let_def split: if_splits prod.splits sum.splits)

lemma game_action_skip:
  "\<not> (m = POST \<and> s_state s = ''playing'') \<Longrightarrow> game_action m a s = (Inr (s_state s, []), s)"
  by (auto simp: game_action_def)

lemma game_action_hit:
  "s_state s = ''playing'' \<Longrightarrow> s_deck s = deck @ [c] \<Longrightarrow>
     game_action POST (Some ''hit'') s =
       (Inr (if 21 < hand_value (s_player s @ [c]) then (''done'', ''You busted! Dealer wins.'')
             else (''playing'', [])),
        s\<lparr>s_deck := deck, s_player := s_player s @ [c]\<rparr>)"
  by (simp add: game_action_def pop_snoc Let_def)

lemma game_action_hit_empty:
  "s_state s = ''playing'' \<Longrightarrow> s_deck s = [] \<Longrightarrow>
     game_action POST (Some ''hit'') s = (Inl IndexError, s)"
  by (simp add: game_action_def pop_def)

lemma game_action_stand:
  "s_state s = ''playing'' \<Longrightarrow>
     game_action POST (Some ''stand'') s = (Inr (''dealer'', []), s\<lparr>s_state := ''dealer''\<rparr>)"
  by (simp add: game_action_def)

lemma game_dealer_result:
  assumes "game_dealer (st, msg) s1 = (Inr (st', msg'), s2)"
  shows "st' \<noteq> ''dealer''"
    and "st = ''dealer'' \<longrightarrow> st' = ''done''"
    and "st \<noteq> ''dealer'' \<longrightarrow> st' = st \<and> s2 = s1 \<and> msg' = msg"
    and "s_player s2 = s_player s1"
  using assms
  by (auto simp: game_dealer_def Let_def split: if_splits prod.splits sum.splits)

lemma game_dealer_skip:
  "st \<noteq> ''dealer'' \<Longrightarrow> game_dealer (st, msg) s = (Inr (st, msg), s)"
  by (simp add: game_dealer_def)

lemma game_dealer_player:
  "s_player (snd (game_dealer sm s)) = s_player s"
  by (auto simp: game_dealer_def Let_def split: if_splits prod.splits sum.splits)

lemma game_render_result:
  assumes "game_render (st, msg) s2 = (Inr r, s3)"
  shows "s3 = s2\<lparr>s_state := st\<rparr>" and "r_state r = st" and "message r = msg"
  using assms
  by (auto simp: game_render_def Let_def split: if_splits list.splits)

lemma game_render_session:
  "snd (game_render (st, msg) s) = s\<lparr>s_state := st\<rparr>"
  by (simp add: game_render_def Let_def split: list.splits)

lemma game_render_shown:
  "st \<noteq> ''playing'' \<Longrightarrow>
     game_render (st, msg) s =
       (Inr \<lparr>player_value = hand_value (s_player s), dealer_value = hand_value (s_dealer s),
             r_state = st, message = msg\<rparr>, s\<lparr>s_state := st\<rparr>)"
  by (simp add: game_render_def Let_def)

lemma game_steps:
  assumes "game m a s = (Inr r, s3)"
  obtains st msg s1 st' msg' s2 where
    "game_action m a s = (Inr (st, msg), s1)"
    "game_dealer (st, msg) s1 = (Inr (st', msg'), s2)"
    "game_render (st', msg') s2 = (Inr r, s3)"
  using assms
  by (auto simp: game_def split: prod.splits sum.splits)

lemma game_ignores:
  "s_state s \<noteq> ''playing'' \<Longrightarrow> game m a s = game GET None s"
  by (simp add: game_def game_action_skip)

lemma game_resolved:
  "s_state s \<noteq> ''playing'' \<Longrightarrow> s_state s \<noteq> ''dealer'' \<Longrightarrow>
     game m a s =
       (Inr \<lparr>player_value = hand_value (s_player s), dealer_value = hand_value (s_dealer s),
             r_state = s_state s, message = []\<rparr>, s)"
  by (simp add: game_def game_action_skip game_dealer_skip game_render_shown)

lemma game_player_kept:
  "s_state s \<noteq> ''playing'' \<Longrightarrow> s_player (snd (game m a s)) = s_player s"
proof -
  assume st: "s_state s \<noteq> ''playing''"
  have a: "game_action m a s = (Inr (s_state s, []), s)"
    using st by (simp add: game_action_skip)
  obtain r s2 where d: "game_dealer (s_state s, []) s = (r, s2)" by (cases "game_dealer (s_state s, []) s")
  then have p: "s_player s2 = s_player s" using game_dealer_player[of "(s_state s, [])" s] by simp
  show ?thesis
  proof (cases r)
    case (Inl e)
    then show ?thesis using a d p by (simp add: game_def)
  next
    case (Inr sm)
    obtain st' msg' where sm: "sm = (st', msg')" by (cases sm)
    show ?thesis using a d p Inr sm by (simp add: game_def game_render_session)
  qed
qed

lemma game_dealer_state:
  assumes "s_state s = ''dealer''"
  shows "\<exists>drawn rest. s_deck s = rest @ rev drawn
    \<and> (\<forall>k<length drawn. hand_value (s_dealer s @ take k drawn) \<le> 16)
    \<and> (17 \<le> hand_value (s_dealer s @ drawn)
        \<and> game m a s =
            (Inr \<lparr>player_value = hand_value (s_player s),
                  dealer_value = hand_value (s_dealer s @ drawn), r_state = ''done'',
                  message = (if determine_winner (s_player s) (s_dealer s @ drawn) = ''player''
                             then ''You win!'' else ''Dealer wins! (Dealer wins ties)'')\<rparr>,
             s\<lparr>s_deck := rest, s_dealer := s_dealer s @ drawn, s_state := ''done''\<rparr>)
       \<or> rest = [] \<and> hand_value (s_dealer s @ drawn) \<le> 16
        \<and> game m a s = (Inl IndexError, s\<lparr>s_deck := [], s_dealer := s_dealer s @ drawn\<rparr>))"
proof -
  from dealer_turn_run[of "s_deck s" "s_dealer s"] obtain drawn rest where
    d: "s_deck s = rest @ rev drawn"
    "snd (dealer_turn (s_deck s) (s_dealer s)) = (rest, s_dealer s @ drawn)"
    "\<forall>k<length drawn. hand_value (s_dealer s @ take k drawn) \<le> 16"
    "fst (dealer_turn (s_deck s) (s_dealer s)) = Inr (s_dealer s @ drawn)
        \<and> 17 \<le> hand_value (s_dealer s @ drawn)
      \<or> fst (dealer_turn (s_deck s) (s_dealer s)) = Inl IndexError \<and> rest = []
        \<and> hand_value (s_dealer s @ drawn) \<le> 16"
    by blast
  have a: "game_action m a s = (Inr (''dealer'', []), s)"
    using assms by (simp add: game_action_skip)
  from d(4) show ?thesis
  proof
    assume ok: "fst (dealer_turn (s_deck s) (s_dealer s)) = Inr (s_dealer s @ drawn)
        \<and> 17 \<le> hand_value (s_dealer s @ drawn)"
    with d(2) have dt: "dealer_turn (s_deck s) (s_dealer s)
        = (Inr (s_dealer s @ drawn), rest, s_dealer s @ drawn)"
      by (simp add: prod_eq_iff)
    have "game m a s =
            (Inr \<lparr>player_value = hand_value (s_player s),
                  dealer_value = hand_value (s_dealer s @ drawn), r_state = ''done'',
                  message = (if determine_winner (s_player s) (s_dealer s @ drawn) = ''player''
                             then ''You win!'' else ''Dealer wins! (Dealer wins ties)'')\<rparr>,
             s\<lparr>s_deck := rest, s_dealer := s_dealer s @ drawn, s_state := ''done''\<rparr>)"
      by (simp add: game_def a game_dealer_def dt game_render_shown Let_def)
    with d(1,3) ok show ?thesis by blast
  next
    assume no: "fst (dealer_turn (s_deck s) (s_dealer s)) = Inl IndexError \<and> rest = []
        \<and> hand_value (s_dealer s @ drawn) \<le> 16"
    with d(2) have dt: "dealer_turn (s_deck s) (s_dealer s)
        = (Inl IndexError, [], s_dealer s @ drawn)"
      by (simp add: prod_eq_iff)
    have "game m a s = (Inl IndexError, s\<lparr>s_deck := [], s_dealer := s_dealer s @ drawn\<rparr>)"
      by (simp add: game_def a game_dealer_def dt)
    with d(1,3) no show ?thesis by blast
  qed
qed

text \<open>
  Claim C5, as the handler has it. There is no \<open>InvalidAction\<close>: a Hit or Stand posted
  while the stored state is not \<open>playing\<close> is ignored, the request being served like a
  plain GET, and the player's hand is untouched. In a resolved round the page is rendered
  with an empty message and the whole session stays as it was. In the stored state
  \<open>dealer\<close> the handler runs the pending dealer turn, as on any request: the dealer
  draws while at most 16; at 17 or more the round is resolved, with the state \<open>done\<close>
  and the verdict as message; when the deck runs out first the request ends in
  \<open>IndexError\<close>, the drawn cards in the dealer's hand.
\<close>

theorem C5_action_ignored_outside_player_turn:
  "(s_state s \<noteq> ''playing'' \<longrightarrow>
      game POST a s = game GET None s \<and> s_player (snd (game POST a s)) = s_player s)
   \<and> (s_state s \<noteq> ''playing'' \<and> s_state s \<noteq> ''dealer'' \<longrightarrow>
      game POST a s =
        (Inr \<lparr>player_value = hand_value (s_player s), dealer_value = hand_value (s_dealer s),
              r_state = s_state s, message = []\<rparr>, s))
   \<and> (s_state s = ''dealer'' \<longrightarrow>
      (\<exists>drawn rest. s_deck s = rest @ rev drawn
        \<and> (\<forall>k<length drawn. hand_value (s_dealer s @ take k drawn) \<le> 16)
        \<and> (17 \<le> hand_value (s_dealer s @ drawn)
            \<and> game POST a s =
                (Inr \<lparr>player_value = hand_value (s_player s),
                      dealer_value = hand_value (s_dealer s @ drawn), r_state = ''done'',
                      message =
                        (if determine_winner (s_player s) (s_dealer s @ drawn) = ''player''
                         then ''You win!'' else ''Dealer wins! (Dealer wins ties)'')\<rparr>,
                 s\<lparr>s_deck := rest, s_dealer := s_dealer s @ drawn, s_state := ''done''\<rparr>)
           \<or> rest = [] \<and> hand_value (s_dealer s @ drawn) \<le> 16
            \<and> game POST a s =
                (Inl IndexError, s\<lparr>s_deck := [], s_dealer := s_dealer s @ drawn\<rparr>))))"
  using game_ignores[of s POST a] game_player_kept[of s POST a] game_resolved[of s POST a]
    game_dealer_state[of s POST a]
  by blast

theorem C5_witness:
  "s_state \<lparr>s_deck = [(Two, Clubs)], s_player = [(Ten, Spades), (Five, Spades), (King, Spades)],
      s_dealer = [(Ten, Hearts), (Six, Hearts)], s_state = ''done''\<rparr> \<noteq> ''playing''
   \<and> s_state \<lparr>s_deck = [(Two, Clubs)], s_player = [(Ten, Spades), (Five, Spades), (King, Spades)],
      s_dealer = [(Ten, Hearts), (Six, Hearts)], s_state = ''done''\<rparr> \<noteq> ''dealer''
   \<and> game POST (Some ''stand'')
        \<lparr>s_deck = [(Two, Clubs)], s_player = [(Ten, Spades), (Five, Spades), (King, Spades)],
         s_dealer = [(Ten, Hearts), (Six, Hearts)], s_state = ''done''\<rparr>
      = (Inr \<lparr>player_value = hand_value [(Ten, Spades), (Five, Spades), (King, Spades)],
              dealer_value = hand_value [(Ten, Hearts), (Six, Hearts)],
              r_state = ''done'', message = []\<rparr>,
         \<lparr>s_deck = [(Two, Clubs)], s_player = [(Ten, Spades), (Five, Spades), (King, Spades)],
          s_dealer = [(Ten, Hearts), (Six, Hearts)], s_state = ''done''\<rparr>)
   \<and> s_state \<lparr>s_deck = [(Two, Clubs)], s_player = [(Ten, Spades), (Nine, Spades)],
      s_dealer = [(Ten, Hearts), (Six, Hearts)], s_state = ''dealer''\<rparr> = ''dealer''
   \<and> (\<exists>drawn rest. [(Two, Clubs)] = rest @ rev drawn
        \<and> (\<forall>k<length drawn. hand_value ([(Ten, Hearts), (Six, Hearts)] @ take k drawn) \<le> 16)
        \<and> (17 \<le> hand_value ([(Ten, Hearts), (Six, Hearts)] @ drawn)
            \<and> fst (game POST (Some ''hit'')
                 \<lparr>s_deck = [(Two, Clubs)], s_player = [(Ten, Spades), (Nine, Spades)],
                  s_dealer = [(Ten, Hearts), (Six, Hearts)], s_state = ''dealer''\<rparr>)
               = Inr \<lparr>player_value = hand_value [(Ten, Spades), (Nine, Spades)],
                      dealer_value = hand_value ([(Ten, Hearts), (Six, Hearts)] @ drawn),
                      r_state = ''done'',
                      message =
                        (if determine_winner [(Ten, Spades), (Nine, Spades)]
                              ([(Ten, Hearts), (Six, Hearts)] @ drawn) = ''player''
                         then ''You win!'' else ''Dealer wins! (Dealer wins ties)'')\<rparr>
           \<or> rest = [] \<and> hand_value ([(Ten, Hearts), (Six, Hearts)] @ drawn) \<le> 16
            \<and> fst (game POST (Some ''hit'')
                 \<lparr>s_deck = [(Two, Clubs)], s_player = [(Ten, Spades), (Nine, Spades)],
                  s_dealer = [(Ten, Hearts), (Six, Hearts)], s_state = ''dealer''\<rparr>)
               = Inl IndexError))"
proof -
  let ?s = "\<lparr>s_deck = [(Two, Clubs)], s_player = [(Ten, Spades), (Five, Spades), (King, Spades)],
      s_dealer = [(Ten, Hearts), (Six, Hearts)], s_state = ''done''\<rparr>"
  let ?d = "\<lparr>s_deck = [(Two, Clubs)], s_player = [(Ten, Spades), (Nine, Spades)],
      s_dealer = [(Ten, Hearts), (Six, Hearts)], s_state = ''dealer''\<rparr>"
  have p: "s_state ?s \<noteq> ''playing'' \<and> s_state ?s \<noteq> ''dealer''" by simp
  have q: "s_state ?d = ''dealer''" by simp
  have "s_state ?s \<noteq> ''playing'' \<and> s_state ?s \<noteq> ''dealer'' \<longrightarrow>
      game POST (Some ''stand'') ?s =
        (Inr \<lparr>player_value = hand_value (s_player ?s), dealer_value = hand_value (s_dealer ?s),
              r_state = s_state ?s, message = []\<rparr>, ?s)"
    using C5_action_ignored_outside_player_turn [of ?s "Some ''stand''"] by blast
  from this[rule_format, OF p] have 1: "game POST (Some ''stand'') ?s
      = (Inr \<lparr>player_value = hand_value [(Ten, Spades), (Five, Spades), (King, Spades)],
              dealer_value = hand_value [(Ten, Hearts), (Six, Hearts)],
              r_state = ''done'', message = []\<rparr>, ?s)" by simp
  have "s_state ?d = ''dealer'' \<longrightarrow>
      (\<exists>drawn rest. s_deck ?d = rest @ rev drawn
        \<and> (\<forall>k<length drawn. hand_value (s_dealer ?d @ take k drawn) \<le> 16)
        \<and> (17 \<le> hand_value (s_dealer ?d @ drawn)
            \<and> game POST (Some ''hit'') ?d =
                (Inr \<lparr>player_value = hand_value (s_player ?d),
                      dealer_value = hand_value (s_dealer ?d @ drawn), r_state = ''done'',
                      message =
                        (if determine_winner (s_player ?d) (s_dealer ?d @ drawn) = ''player''
                         then ''You win!'' else ''Dealer wins! (Dealer wins ties)'')\<rparr>,
                 ?d\<lparr>s_deck := rest, s_dealer := s_dealer ?d @ drawn, s_state := ''done''\<rparr>)
           \<or> rest = [] \<and> hand_value (s_dealer ?d @ drawn) \<le> 16
            \<and> game POST (Some ''hit'') ?d =
                (Inl IndexError, ?d\<lparr>s_deck := [], s_dealer := s_dealer ?d @ drawn\<rparr>)))"
    using C5_action_ignored_outside_player_turn [of ?d "Some ''hit''"] by blast
  from this[rule_format, OF q] obtain drawn rest where
    r: "s_deck ?d = rest @ rev drawn"
    "\<forall>k<length drawn. hand_value (s_dealer ?d @ take k drawn) \<le> 16"
    "17 \<le> hand_value (s_dealer ?d @ drawn)
            \<and> game POST (Some ''hit'') ?d =
                (Inr \<lparr>player_value = hand_value (s_player ?d),
                      dealer_value = hand_value (s_dealer ?d @ drawn), r_state = ''done'',
                      message =
                        (if determine_winner (s_player ?d) (s_dealer ?d @ drawn) = ''player''
                         then ''You win!'' else ''Dealer wins! (Dealer wins ties)'')\<rparr>,
                 ?d\<lparr>s_deck := rest, s_dealer := s_dealer ?d @ drawn, s_state := ''done''\<rparr>)
           \<or> rest = [] \<and> hand_value (s_dealer ?d @ drawn) \<le> 16
            \<and> game POST (Some ''hit'') ?d =
                (Inl IndexError, ?d\<lparr>s_deck := [], s_dealer := s_dealer ?d @ drawn\<rparr>)"
    by blast
  have 2: "\<exists>drawn rest. [(Two, Clubs)] = rest @ rev drawn
        \<and> (\<forall>k<length drawn. hand_value ([(Ten, Hearts), (Six, Hearts)] @ take k drawn) \<le> 16)
        \<and> (17 \<le> hand_value ([(Ten, Hearts), (Six, Hearts)] @ drawn)
            \<and> fst (game POST (Some ''hit'') ?d)
               = Inr \<lparr>player_value = hand_value [(Ten, Spades), (Nine, Spades)],
                      dealer_value = hand_value ([(Ten, Hearts), (Six, Hearts)] @ drawn),
                      r_state = ''done'',
                      message =
                        (if determine_winner [(Ten, Spades), (Nine, Spades)]
                              ([(Ten, Hearts), (Six, Hearts)] @ drawn) = ''player''
                         then ''You win!'' else ''Dealer wins! (Dealer wins ties)'')\<rparr>
           \<or> rest = [] \<and> hand_value ([(Ten, Hearts), (Six, Hearts)] @ drawn) \<le> 16
            \<and> fst (game POST (Some ''hit'') ?d) = Inl IndexError)"
    using r by (intro exI[of _ drawn] exI[of _ rest]) auto
  from p q 1 2 show ?thesis by blast
qed

text \<open>
  Against the claim as stated: a Hit posted to a resolved round (the player has bust
  with 25) is answered with the normal page and no error; and a Hit posted in the stored
  state \<open>dealer\<close> lets the dealer draw and resolves the round, so the session changes.
\<close>

theorem C5_counterexample:
  "game POST (Some ''hit'')
     \<lparr>s_deck = [(Two, Clubs)], s_player = [(Ten, Spades), (Five, Spades), (King, Spades)],
      s_dealer = [(Ten, Hearts), (Six, Hearts)], s_state = ''done''\<rparr>
   = (Inr \<lparr>player_value = 25, dealer_value = 16, r_state = ''done'', message = []\<rparr>,
      \<lparr>s_deck = [(Two, Clubs)], s_player = [(Ten, Spades), (Five, Spades), (King, Spades)],
       s_dealer = [(Ten, Hearts), (Six, Hearts)], s_state = ''done''\<rparr>)
   \<and> game POST (Some ''hit'')
     \<lparr>s_deck = [(Two, Clubs)], s_player = [(Ten, Spades), (Nine, Spades)],
      s_dealer = [(Ten, Hearts), (Six, Hearts)], s_state = ''dealer''\<rparr>
   = (Inr \<lparr>player_value = 19, dealer_value = 18, r_state = ''done'', message = ''You win!''\<rparr>,
      \<lparr>s_deck = [], s_player = [(Ten, Spades), (Nine, Spades)],
       s_dealer = [(Ten, Hearts), (Six, Hearts), (Two, Clubs)], s_state = ''done''\<rparr>)"
  by (simp add: game_def game_action_def game_dealer_def game_render_def dealer_turn.simps
      pop_def determine_winner_def hand_value_def count_card_def soften.simps Let_def)


section \<open>Properties of the player's turn and of a round\<close>

lemma player_turn_hit_empty:
  "choice = ''h'' \<or> choice = ''hit'' \<Longrightarrow>
     player_turn [] hand (choice # rest) = (Inl IndexError, [], hand, rest)"
  by (simp add: player_turn.simps pop_def)

lemma player_turn_hit_draw:
  "choice = ''h'' \<or> choice = ''hit'' \<Longrightarrow>
     player_turn (d @ [c]) hand (choice # rest) =
       (if 21 < hand_value (hand @ [c]) then (Inr (hand @ [c]), d, hand @ [c], rest)
        else player_turn d (hand @ [c]) rest)"
  by (simp add: player_turn.simps pop_snoc)

lemma player_turn_stand:
  "\<not> (choice = ''h'' \<or> choice = ''hit'') \<Longrightarrow> choice = ''s'' \<or> choice = ''stand'' \<Longrightarrow>
     player_turn deck hand (choice # rest) = (Inr hand, deck, hand, rest)"
  by (simp add: player_turn.simps)

lemma player_turn_other:
  "\<not> (choice = ''h'' \<or> choice = ''hit'') \<Longrightarrow> \<not> (choice = ''s'' \<or> choice = ''stand'') \<Longrightarrow>
     player_turn deck hand (choice # rest) = player_turn deck hand rest"
  by (simp add: player_turn.simps)


lemma player_turn_run:
  "player_turn deck hand ins = (Inr hand', deck', hand'', rest) \<Longrightarrow>
     hand'' = hand' \<and> (\<exists>drawn. hand' = hand @ drawn \<and> deck = deck' @ rev drawn)"
proof (induction ins arbitrary: deck hand)
  case Nil
  then show ?case by simp
next
  case (Cons choice ins)
  show ?case
  proof (cases "choice = ''h'' \<or> choice = ''hit''")
    case hit: True
    show ?thesis
    proof (cases deck rule: rev_cases)
      case Nil
      have "player_turn [] hand (choice # ins) = (Inl IndexError, [], hand, ins)"
        using hit by (rule player_turn_hit_empty)
      with Cons.prems Nil show ?thesis by simp
    next
      case (snoc d c)
      note step = player_turn_hit_draw[OF hit, of d c hand ins]
      show ?thesis
      proof (cases "21 < hand_value (hand @ [c])")
        case True
        have "(Inr hand', deck', hand'', rest) = player_turn deck hand (choice # ins)"
          using Cons.prems by (rule sym)
        also have "\<dots> = (Inr (hand @ [c]), d, hand @ [c], ins)"
          using step True snoc by simp
        finally have "hand' = hand @ [c]" "deck' = d" "hand'' = hand @ [c]" by simp_all
        with snoc show ?thesis by simp
      next
        case False
        have "player_turn d (hand @ [c]) ins = player_turn deck hand (choice # ins)"
          using step False snoc by simp
        also note Cons.prems
        finally have "player_turn d (hand @ [c]) ins = (Inr hand', deck', hand'', rest)" .
        from Cons.IH[OF this] obtain drawn where
          "hand'' = hand'" "hand' = (hand @ [c]) @ drawn" "d = deck' @ rev drawn" by blast
        then have "hand' = hand @ (c # drawn)" "deck = deck' @ rev (c # drawn)"
          using snoc by simp_all
        with \<open>hand'' = hand'\<close> show ?thesis by blast
      qed
    qed
  next
    case nohit: False
    show ?thesis
    proof (cases "choice = ''s'' \<or> choice = ''stand''")
      case True
      note step = player_turn_stand[OF nohit True, of deck hand ins]
      have "(Inr hand', deck', hand'', rest) = player_turn deck hand (choice # ins)"
        using Cons.prems by (rule sym)
      also have "\<dots> = (Inr hand, deck, hand, ins)" by (rule step)
      finally have "hand' = hand" "deck' = deck" "hand'' = hand" by simp_all
      then show ?thesis by simp
    next
      case False
      note step = player_turn_other[OF nohit False, of deck hand ins]
      have "player_turn deck hand ins = (Inr hand', deck', hand'', rest)"
        using Cons.prems unfolding step .
      from Cons.IH[OF this] show ?thesis .
    qed
  qed
qed

lemma shuffled_length: "length (fst (build_deck True g)) = 52"
  using mset_eq_length[OF shuffled_mset[of g g]] by (simp only: unshuffled_length)

lemma deal_shuffled:
  obtains rest c2 c1 p2 p1 where
    "fst (build_deck True g) = rest @ [c2, c1, p2, p1]"
    "deal_initial_hands (fst (build_deck True g)) = (Inr ([p1, p2], [c1, c2]), rest)"
    "length rest = 48"
proof -
  have "4 \<le> length (fst (build_deck True g))" by (simp add: shuffled_length)
  from split_last_four[OF this] obtain rest c2 c1 p2 p1
    where d: "fst (build_deck True g) = rest @ [c2, c1, p2, p1]" by blast
  have "length (rest @ [c2, c1, p2, p1]) = 52" using shuffled_length[of g] d by simp
  then have len: "length rest = 48" by simp
  have deal: "deal_initial_hands (fst (build_deck True g)) = (Inr ([p1, p2], [c1, c2]), rest)"
    unfolding d by (rule deal_initial_hands_four)
  show ?thesis by (rule that[OF d deal len])
qed

lemma play_round_bust:
  assumes "play_round g ins = Inr (v, deck', player', dealer')" "21 < hand_value player'"
  shows "v = ''Dealer wins!'' \<and> length dealer' = 2
    \<and> (\<exists>p0 d0 drawn. deal_initial_hands (fst (build_deck True g)) = (Inr (p0, dealer'), d0)
          \<and> player' = p0 @ drawn \<and> d0 = deck' @ rev drawn)"
proof -
  obtain rest c2 c1 p2 p1 where
    deal: "deal_initial_hands (fst (build_deck True g)) = (Inr ([p1, p2], [c1, c2]), rest)"
    using deal_shuffled[of g] .
  obtain pr dk hd rs where pt: "player_turn rest [p1, p2] ins = (pr, dk, hd, rs)"
    by (cases "player_turn rest [p1, p2] ins") auto
  show ?thesis
  proof (cases pr)
    case (Inl e)
    with assms(1) deal pt show ?thesis by (simp add: play_round_def)
  next
    case (Inr pl)
    from player_turn_run[OF pt[unfolded Inr]] obtain drawn where
      run: "pl = [p1, p2] @ drawn" "rest = dk @ rev drawn" by blast
    show ?thesis
    proof (cases "21 < hand_value pl")
      case True
      with assms(1) deal pt Inr have "v = ''Dealer wins!''" "deck' = dk" "player' = pl"
        "dealer' = [c1, c2]" by (simp_all add: play_round_def)
      with deal run show ?thesis by simp
    next
      case False
      obtain dr dk2 hd2 where dt: "dealer_turn_console dk [c1, c2] = (dr, dk2, hd2)"
        by (cases "dealer_turn_console dk [c1, c2]") auto
      have "player' = pl"
        using assms(1) deal pt Inr False dt
        by (cases dr) (simp_all add: play_round_def Let_def)
      with False assms(2) show ?thesis by simp
    qed
  qed
qed




lemma game_hit_bust:
  assumes "s_state s = ''playing''" "s_deck s = deck @ [c]" "21 < hand_value (s_player s @ [c])"
  shows "game POST (Some ''hit'') s =
    (Inr \<lparr>player_value = hand_value (s_player s @ [c]), dealer_value = hand_value (s_dealer s),
          r_state = ''done'', message = ''You busted! Dealer wins.''\<rparr>,
     s\<lparr>s_deck := deck, s_player := s_player s @ [c], s_state := ''done''\<rparr>)"
  using assms
  by (simp add: game_def game_action_hit game_dealer_skip game_render_shown)

lemma game_dealer_kept:
  assumes "s_state s = ''playing''" "\<not> (m = POST \<and> a = Some ''stand'')"
  shows "s_dealer (snd (game m a s)) = s_dealer s"
proof -
  obtain r s1 where ga: "game_action m a s = (r, s1)" by (cases "game_action m a s")
  show ?thesis
  proof (cases r)
    case (Inl e)
    with ga have "s1 = s"
      by (auto simp: game_action_def Let_def split: if_splits prod.splits sum.splits)
    with ga Inl show ?thesis by (simp add: game_def)
  next
    case (Inr sm)
    obtain st msg where sm: "sm = (st, msg)" by (cases sm)
    have d: "s_dealer s1 = s_dealer s"
      using game_action_result(1)[OF ga[unfolded Inr sm]] .
    have "st \<noteq> ''dealer''"
      using ga Inr sm assms
      by (auto simp: game_action_def Let_def split: if_splits prod.splits sum.splits)
    then have "game_dealer (st, msg) s1 = (Inr (st, msg), s1)" by (rule game_dealer_skip)
    with ga Inr sm d show ?thesis by (simp add: game_def game_render_session)
  qed
qed

section \<open>Every session of a round is served\<close>

lemma length_le_low_total: "int (length hand) \<le> low_total hand"
proof (induction hand)
  case Nil
  then show ?case by (simp add: low_total_def)
next
  case (Cons c cs)
  have "1 \<le> (if fst c = Ace then 1 else card_value (fst c))"
    by (cases "fst c") simp_all
  with Cons show ?case by (simp add: low_total_def)
qed

lemma low_total_two: "low_total [c1, c2] \<le> 20"
proof -
  have "(if fst c = Ace then 1 else card_value (fst c)) \<le> 10" for c :: card
    by (cases "fst c") simp_all
  from this[of c1] this[of c2] show ?thesis by (simp add: low_total_def)
qed

lemma hand_value_two: "hand_value [c1, c2] \<le> 21"
proof (rule ccontr)
  assume "\<not> hand_value [c1, c2] \<le> 21"
  then have b: "21 < hand_value [c1, c2]" by simp
  from hand_value_choice[of "[c1, c2]"] b have "hand_value [c1, c2] = low_total [c1, c2]"
    by auto
  with b low_total_two[of c1 c2] show False by simp
qed

lemma start_inv: "\<exists>s. start g = Inr s \<and> round_inv s"
proof -
  obtain rest c2 c1 p2 p1 where
    deal: "deal_initial_hands (fst (build_deck True g)) = (Inr ([p1, p2], [c1, c2]), rest)"
    and len: "length rest = 48"
    using deal_shuffled[of g] .
  have "start g = Inr \<lparr>s_deck = rest, s_player = [p1, p2], s_dealer = [c1, c2],
      s_state = ''playing''\<rparr>"
    by (simp add: start_def deal)
  moreover have "round_inv \<lparr>s_deck = rest, s_player = [p1, p2], s_dealer = [c1, c2],
      s_state = ''playing''\<rparr>"
    by (simp add: round_inv_def len hand_value_two)
  ultimately show ?thesis by blast
qed

lemma game_stand:
  assumes "s_state s = ''playing''" "17 \<le> low_total (s_dealer s) + int (length (s_deck s))"
  shows "\<exists>drawn rest. s_deck s = rest @ rev drawn \<and> 17 \<le> hand_value (s_dealer s @ drawn)
    \<and> game POST (Some ''stand'') s =
       (Inr \<lparr>player_value = hand_value (s_player s),
             dealer_value = hand_value (s_dealer s @ drawn), r_state = ''done'',
             message = (if determine_winner (s_player s) (s_dealer s @ drawn) = ''player''
                        then ''You win!'' else ''Dealer wins! (Dealer wins ties)'')\<rparr>,
        s\<lparr>s_deck := rest, s_dealer := s_dealer s @ drawn, s_state := ''done''\<rparr>)"
proof -
  from dealer_turn_enough[OF assms(2)] obtain hand'
    where ok: "fst (dealer_turn (s_deck s) (s_dealer s)) = Inr hand'" by blast
  from dealer_turn_run[of "s_deck s" "s_dealer s"] ok obtain drawn rest where
    d: "s_deck s = rest @ rev drawn"
    "snd (dealer_turn (s_deck s) (s_dealer s)) = (rest, s_dealer s @ drawn)"
    "fst (dealer_turn (s_deck s) (s_dealer s)) = Inr (s_dealer s @ drawn)"
    "17 \<le> hand_value (s_dealer s @ drawn)"
    by auto
  have dt: "dealer_turn (s_deck s) (s_dealer s) = (Inr (s_dealer s @ drawn), rest, s_dealer s @ drawn)"
    using d(2,3) by (simp add: prod_eq_iff)
  have "game POST (Some ''stand'') s =
       (Inr \<lparr>player_value = hand_value (s_player s),
             dealer_value = hand_value (s_dealer s @ drawn), r_state = ''done'',
             message = (if determine_winner (s_player s) (s_dealer s @ drawn) = ''player''
                        then ''You win!'' else ''Dealer wins! (Dealer wins ties)'')\<rparr>,
        s\<lparr>s_deck := rest, s_dealer := s_dealer s @ drawn, s_state := ''done''\<rparr>)"
    using assms(1)
    by (simp add: game_def game_action_stand game_dealer_def dt game_render_shown Let_def)
  with d(1,4) show ?thesis by blast
qed

lemma game_hit_safe:
  assumes "s_state s = ''playing''" "s_deck s = deck @ [c]" "\<not> 21 < hand_value (s_player s @ [c])"
    "s_dealer s = d # ds"
  shows "game POST (Some ''hit'') s =
    (Inr \<lparr>player_value = hand_value (s_player s @ [c]), dealer_value = hand_value [d],
          r_state = ''playing'', message = []\<rparr>,
     s\<lparr>s_deck := deck, s_player := s_player s @ [c]\<rparr>)"
  using assms
  by (simp add: game_def game_action_hit game_dealer_skip game_render_def)

lemma game_idle:
  assumes "s_state s = ''playing''" "\<not> (m = POST \<and> (a = Some ''hit'' \<or> a = Some ''stand''))"
    "s_dealer s = d # ds"
  shows "game m a s =
    (Inr \<lparr>player_value = hand_value (s_player s), dealer_value = hand_value [d],
          r_state = ''playing'', message = []\<rparr>, s)"
proof -
  have "game_action m a s = (Inr (''playing'', []), s)"
    using assms(1,2) by (auto simp: game_action_def)
  then show ?thesis
    using assms(1,3) by (simp add: game_def game_dealer_skip game_render_def)
qed


lemma game_from_inv:
  assumes inv: "round_inv s"
  shows "\<exists>r s'. game m a s = (Inr r, s') \<and> round_inv s'"
proof (cases "s_state s = ''playing''")
  case False
  with inv have "s_state s \<noteq> ''dealer''" by (auto simp: round_inv_def)
  from game_resolved[OF False this, of m a] inv show ?thesis by blast
next
  case playing: True
  from inv playing have sum: "length (s_deck s) + length (s_player s) + length (s_dealer s) = 52"
    and two: "length (s_dealer s) = 2" and ok: "hand_value (s_player s) \<le> 21"
    by (simp_all add: round_inv_def)
  from two obtain d ds where dealer: "s_dealer s = d # ds" by (cases "s_dealer s") auto
  have "int (length (s_player s)) \<le> 21"
    using length_le_low_total[of "s_player s"] low_total_le[of "s_player s"] ok by linarith
  with sum two have big: "29 \<le> length (s_deck s)" by linarith
  show ?thesis
  proof (cases "m = POST \<and> a = Some ''hit''")
    case hit: True
    from big obtain deck c where deck: "s_deck s = deck @ [c]"
      by (cases "s_deck s" rule: rev_cases) auto
    show ?thesis
    proof (cases "21 < hand_value (s_player s @ [c])")
      case True
      have "round_inv (s\<lparr>s_deck := deck, s_player := s_player s @ [c], s_state := ''done''\<rparr>)"
        using sum two deck by (simp add: round_inv_def)
      with game_hit_bust[OF playing deck True] hit show ?thesis by blast
    next
      case False
      have "round_inv (s\<lparr>s_deck := deck, s_player := s_player s @ [c]\<rparr>)"
        using sum two deck playing False by (simp add: round_inv_def)
      with game_hit_safe[OF playing deck False dealer] hit show ?thesis by blast
    qed
  next
    case nohit: False
    show ?thesis
    proof (cases "m = POST \<and> a = Some ''stand''")
      case True
      have "0 \<le> low_total (s_dealer s)"
        using length_le_low_total[of "s_dealer s"] by linarith
      with big have "17 \<le> low_total (s_dealer s) + int (length (s_deck s))" by linarith
      from game_stand[OF playing this] obtain drawn rest where
        g: "s_deck s = rest @ rev drawn"
        "game POST (Some ''stand'') s =
          (Inr \<lparr>player_value = hand_value (s_player s),
                dealer_value = hand_value (s_dealer s @ drawn), r_state = ''done'',
                message = (if determine_winner (s_player s) (s_dealer s @ drawn) = ''player''
                           then ''You win!'' else ''Dealer wins! (Dealer wins ties)'')\<rparr>,
           s\<lparr>s_deck := rest, s_dealer := s_dealer s @ drawn, s_state := ''done''\<rparr>)"
        by blast
      have "round_inv (s\<lparr>s_deck := rest, s_dealer := s_dealer s @ drawn, s_state := ''done''\<rparr>)"
        using sum two g(1) by (simp add: round_inv_def)
      with g(2) True show ?thesis by blast
    next
      case False
      with nohit have "\<not> (m = POST \<and> (a = Some ''hit'' \<or> a = Some ''stand''))" by blast
      from game_idle[OF playing this dealer] inv show ?thesis by blast
    qed
  qed
qed

lemma game_state_after:
  assumes "game m a s = (Inr r, s')"
  shows "s_state s' \<noteq> ''dealer''" and "r_state r = s_state s'"
proof -
  from game_steps[OF assms] obtain st msg s1 st' msg' s2 where
    st: "game_action m a s = (Inr (st, msg), s1)"
    "game_dealer (st, msg) s1 = (Inr (st', msg'), s2)"
    "game_render (st', msg') s2 = (Inr r, s')" by blast
  from game_render_result[OF st(3)] have "s_state s' = st'" "r_state r = st'" by simp_all
  with game_dealer_result(1)[OF st(2)] show "s_state s' \<noteq> ''dealer''" "r_state r = s_state s'"
    by simp_all
qed

lemma game_stand_result:
  assumes "s_state s = ''playing''" "game POST (Some ''stand'') s = (Inr r, s')"
  shows "s_state s' = ''done'' \<and> s_player s' = s_player s \<and> 17 \<le> hand_value (s_dealer s')
    \<and> message r = (if determine_winner (s_player s') (s_dealer s') = ''player''
                    then ''You win!'' else ''Dealer wins! (Dealer wins ties)'')"
proof -
  obtain dr rest hand' where dt: "dealer_turn (s_deck s) (s_dealer s) = (dr, rest, hand')"
    by (cases "dealer_turn (s_deck s) (s_dealer s)") auto
  show ?thesis
  proof (cases dr)
    case (Inl e)
    with assms dt show ?thesis
      by (simp add: game_def game_action_stand game_dealer_def)
  next
    case (Inr dealer)
    from dealer_turn_run[of "s_deck s" "s_dealer s"] dt Inr
    have "17 \<le> hand_value dealer" by auto
    with assms dt Inr show ?thesis
      by (auto simp: game_def game_action_stand game_dealer_def game_render_shown Let_def)
  qed
qed

section \<open>The state the handler leaves in the session\<close>

text \<open>
  On a filled session the handler on any session is \<open>game\<close>.
\<close>

lemma request_action_filled:
  "request_action m a (filled s) = (fst (game_action m a s), filled (snd (game_action m a s)))"
  by (auto simp: request_action_def game_action_def filled_def Let_def
      split: prod.splits sum.splits)

lemma dealer_turn_on_filled:
  "dealer_turn_on (Some d) (Some h) =
     (fst (dealer_turn d h), Some (fst (snd (dealer_turn d h))), Some (snd (snd (dealer_turn d h))))"
  by (simp add: dealer_turn_on_def split: prod.splits)

lemma request_dealer_filled:
  "request_dealer sm (filled s) = (fst (game_dealer sm s), filled (snd (game_dealer sm s)))"
  by (auto simp: request_dealer_def game_dealer_def dealer_turn_on_filled filled_def Let_def
      split: prod.splits sum.splits)

lemma request_render_filled:
  "request_render sm (filled s) = (fst (game_render sm s), filled (snd (game_render sm s)))"
  by (auto simp: request_render_def game_render_def filled_def Let_def
      split: prod.splits list.splits)

lemma game_request_filled:
  "game_request m a (filled s) = (fst (game m a s), filled (snd (game m a s)))"
  by (auto simp: game_request_def game_def request_action_filled request_dealer_filled
      request_render_filled split: prod.splits sum.splits)

lemma request_dealer_state:
  assumes "request_dealer (st, msg) st1 = (Inr (st', msg'), st2)"
  shows "st' \<noteq> ''dealer''"
  using assms
  by (auto simp: request_dealer_def Let_def split: if_splits prod.splits sum.splits option.splits)

lemma request_render_state:
  assumes "request_render (st, msg) st2 = (Inr r, st3)"
  shows "st_state st3 = Some st" and "r_state r = st"
  using assms
  by (auto simp: request_render_def Let_def split: if_splits list.splits option.splits)

lemma game_request_page:
  assumes "game_request m a st = (Inr r, st')"
  shows "st_state st' = Some (r_state r)" and "st_state st' \<noteq> Some ''dealer''"
proof -
  from assms obtain sm st1 sm' st2 where
    "request_action m a st = (Inr sm, st1)"
    and d: "request_dealer sm st1 = (Inr sm', st2)"
    and r: "request_render sm' st2 = (Inr r, st')"
    by (auto simp: game_request_def split: prod.splits sum.splits)
  obtain x msg where sm: "sm = (x, msg)" by (cases sm)
  obtain x' msg' where sm': "sm' = (x', msg')" by (cases sm')
  from request_dealer_state[OF d[unfolded sm sm']] have "x' \<noteq> ''dealer''" .
  with request_render_state[OF r[unfolded sm']]
  show "st_state st' = Some (r_state r)" "st_state st' \<noteq> Some ''dealer''" by simp_all
qed

lemma stand_without_dealer:
  assumes "st_dealer st = None" "st_state st = None \<or> st_state st = Some ''playing''"
  shows "game_request POST (Some ''stand'') st = (Inl TypeError, st\<lparr>st_state := Some ''dealer''\<rparr>)"
proof -
  have a: "request_action POST (Some ''stand'') st
      = (Inr (''dealer'', []), st\<lparr>st_state := Some ''dealer''\<rparr>)"
    using assms(2) by (auto simp: request_action_def)
  have "request_dealer (''dealer'', []) (st\<lparr>st_state := Some ''dealer''\<rparr>)
      = (Inl TypeError, st\<lparr>st_state := Some ''dealer''\<rparr>)"
    using assms(1) by (simp add: request_dealer_def dealer_turn_on_def)
  with a show ?thesis by (simp add: game_request_def)
qed

lemma dealer_state_without_dealer:
  assumes "st_dealer st = None" "st_state st = Some ''dealer''"
  shows "game_request m a st = (Inl TypeError, st)"
proof -
  have a: "request_action m a st = (Inr (''dealer'', []), st)"
    using assms(2) by (simp add: request_action_def)
  have "request_dealer (''dealer'', []) st = (Inl TypeError, st)"
    using assms(1) by (simp add: request_dealer_def dealer_turn_on_def)
  with a show ?thesis by (simp add: game_request_def)
qed

lemma request_without_hands:
  assumes "st_deck st = None" "st_player st = None" "st_dealer st = None"
    "st_state st = None \<or> st_state st = Some ''playing'' \<or> st_state st = Some ''dealer''"
  shows "\<exists>e st'. game_request m a st = (Inl e, st')
    \<and> st_deck st' = None \<and> st_player st' = None \<and> st_dealer st' = None
    \<and> (st_state st' = None \<or> st_state st' = Some ''playing'' \<or> st_state st' = Some ''dealer'')"
proof (cases "st_state st = Some ''dealer''")
  case True
  from dealer_state_without_dealer[OF assms(3) True, of m a] assms show ?thesis by simp
next
  case False
  with assms(4) have play: "st_state st = None \<or> st_state st = Some ''playing''" by blast
  show ?thesis
  proof (cases "m = POST \<and> a = Some ''stand''")
    case True
    with stand_without_dealer[OF assms(3) play] assms show ?thesis by simp
  next
    case nostand: False
    show ?thesis
    proof (cases "m = POST \<and> a = Some ''hit''")
      case True
      have "request_action m a st = (Inl AttributeError, st)"
        using True play assms(2) by (auto simp: request_action_def)
      then have "game_request m a st = (Inl AttributeError, st)"
        by (simp add: game_request_def)
      with assms show ?thesis by simp
    next
      case False
      have a: "request_action m a st = (Inr (''playing'', []), st)"
        using False nostand play by (auto simp: request_action_def)
      have d: "request_dealer (''playing'', []) st = (Inr (''playing'', []), st)"
        by (simp add: request_dealer_def)
      have "request_render (''playing'', []) st = (Inl TypeError, st\<lparr>st_state := Some ''playing''\<rparr>)"
        using assms(2) by (simp add: request_render_def)
      with a d have "game_request m a st = (Inl TypeError, st\<lparr>st_state := Some ''playing''\<rparr>)"
        by (simp add: game_request_def)
      with assms show ?thesis by simp
    qed
  qed
qed

lemma held_inv:
  "held st \<Longrightarrow>
     (\<exists>s. st = filled s \<and> round_inv s)
     \<or> (st_deck st = None \<and> st_player st = None \<and> st_dealer st = None
        \<and> (st_state st = None \<or> st_state st = Some ''playing'' \<or> st_state st = Some ''dealer''))"
proof (induction rule: held.induct)
  case held_empty
  then show ?case by (simp add: no_session_def)
next
  case (held_start g s)
  with start_inv[of g] show ?case by auto
next
  case (held_reset st)
  then show ?case by (simp add: reset_def no_session_def)
next
  case (held_game st m a r st')
  from held_game.IH show ?case
  proof
    assume "\<exists>s. st = filled s \<and> round_inv s"
    then obtain s where s: "st = filled s" "round_inv s" by blast
    from game_from_inv[OF s(2), of m a] obtain r0 s' where
      g: "game m a s = (Inr r0, s')" "round_inv s'" by blast
    with held_game.hyps(2) s(1) have "st' = filled s'" by (simp add: game_request_filled)
    with g(2) show ?thesis by blast
  next
    assume u: "st_deck st = None \<and> st_player st = None \<and> st_dealer st = None
        \<and> (st_state st = None \<or> st_state st = Some ''playing'' \<or> st_state st = Some ''dealer'')"
    then have "\<exists>e st'. game_request m a st = (Inl e, st')
      \<and> st_deck st' = None \<and> st_player st' = None \<and> st_dealer st' = None
      \<and> (st_state st' = None \<or> st_state st' = Some ''playing'' \<or> st_state st' = Some ''dealer'')"
      by (intro request_without_hands) simp_all
    with held_game.hyps(2) show ?thesis by auto
  qed
qed

text \<open>
  Claim C10, as the handler has it. A request that returns its page leaves in the session
  the state the page shows, and never \<open>dealer\<close>. A Stand in state \<open>playing\<close> on a
  filled session, when it returns its page, has run the dealer and resolved the round in
  the same request: the state left is \<open>done\<close>, the player's hand is as before, the
  dealer is at 17 or more and the message is the verdict of \<open>determine_winner\<close>. Of
  the sessions the program holds, a filled one gets its page on every request and is left
  filled, in state \<open>playing\<close> or \<open>done\<close>, and one without deck and hands gets an
  exception on every request. On a session without a dealer's hand, a Stand in state
  \<open>playing\<close>, stored or by default, ends in \<open>TypeError\<close> with \<open>dealer\<close> left in
  the session, and every request to such a session in the stored state \<open>dealer\<close> ends in
  \<open>TypeError\<close> and leaves it as it is.
\<close>

theorem C10_dealer_state_in_session:
  "(game_request m a st = (Inr r, st') \<longrightarrow>
      st_state st' = Some (r_state r) \<and> st_state st' \<noteq> Some ''dealer'')
   \<and> (s_state s = ''playing'' \<and> game_request POST (Some ''stand'') (filled s) = (Inr r, st') \<longrightarrow>
      (\<exists>s'. st' = filled s' \<and> s_state s' = ''done'' \<and> s_player s' = s_player s
         \<and> 17 \<le> hand_value (s_dealer s')
         \<and> message r = (if determine_winner (s_player s') (s_dealer s') = ''player''
                         then ''You win!'' else ''Dealer wins! (Dealer wins ties)'')))
   \<and> (held st \<longrightarrow>
      (\<exists>s0 r' s'. st = filled s0 \<and> game_request m a st = (Inr r', filled s')
          \<and> (s_state s' = ''playing'' \<or> s_state s' = ''done''))
      \<or> (st_deck st = None \<and> st_player st = None \<and> st_dealer st = None
          \<and> (\<exists>e st''. game_request m a st = (Inl e, st''))))
   \<and> (st_dealer st = None \<and> (st_state st = None \<or> st_state st = Some ''playing'') \<longrightarrow>
      game_request POST (Some ''stand'') st
        = (Inl TypeError, st\<lparr>st_state := Some ''dealer''\<rparr>))
   \<and> (st_dealer st = None \<and> st_state st = Some ''dealer'' \<longrightarrow>
      game_request m a st = (Inl TypeError, st))"
proof (intro conjI impI)
  assume "game_request m a st = (Inr r, st')"
  from game_request_page[OF this]
  show "st_state st' = Some (r_state r)" "st_state st' \<noteq> Some ''dealer''" .
next
  assume "s_state s = ''playing'' \<and> game_request POST (Some ''stand'') (filled s) = (Inr r, st')"
  then have p: "s_state s = ''playing''"
    and g: "game_request POST (Some ''stand'') (filled s) = (Inr r, st')" by simp_all
  obtain s' where s': "game POST (Some ''stand'') s = (Inr r, s')" "st' = filled s'"
    using g by (cases "game POST (Some ''stand'') s") (simp add: game_request_filled)
  from game_stand_result[OF p s'(1)] s'(2)
  show "\<exists>s'. st' = filled s' \<and> s_state s' = ''done'' \<and> s_player s' = s_player s
         \<and> 17 \<le> hand_value (s_dealer s')
         \<and> message r = (if determine_winner (s_player s') (s_dealer s') = ''player''
                         then ''You win!'' else ''Dealer wins! (Dealer wins ties)'')"
    by blast
next
  assume "held st"
  from held_inv[OF this]
  show "(\<exists>s0 r' s'. st = filled s0 \<and> game_request m a st = (Inr r', filled s')
          \<and> (s_state s' = ''playing'' \<or> s_state s' = ''done''))
      \<or> (st_deck st = None \<and> st_player st = None \<and> st_dealer st = None
          \<and> (\<exists>e st''. game_request m a st = (Inl e, st'')))"
  proof
    assume "\<exists>s. st = filled s \<and> round_inv s"
    then obtain s0 where s0: "st = filled s0" "round_inv s0" by blast
    from game_from_inv[OF s0(2), of m a] obtain r' s' where
      g: "game m a s0 = (Inr r', s')" "round_inv s'" by blast
    then have "game_request m a st = (Inr r', filled s')"
      using s0(1) by (simp add: game_request_filled)
    moreover from g(2) have "s_state s' = ''playing'' \<or> s_state s' = ''done''"
      by (simp add: round_inv_def)
    ultimately show ?thesis using s0(1) by blast
  next
    assume u: "st_deck st = None \<and> st_player st = None \<and> st_dealer st = None
        \<and> (st_state st = None \<or> st_state st = Some ''playing'' \<or> st_state st = Some ''dealer'')"
    then have "\<exists>e st'. game_request m a st = (Inl e, st')
      \<and> st_deck st' = None \<and> st_player st' = None \<and> st_dealer st' = None
      \<and> (st_state st' = None \<or> st_state st' = Some ''playing'' \<or> st_state st' = Some ''dealer'')"
      by (intro request_without_hands) simp_all
    with u show ?thesis by blast
  qed
next
  assume "st_dealer st = None \<and> (st_state st = None \<or> st_state st = Some ''playing'')"
  then show "game_request POST (Some ''stand'') st
        = (Inl TypeError, st\<lparr>st_state := Some ''dealer''\<rparr>)"
    using stand_without_dealer[of st] by blast
next
  assume "st_dealer st = None \<and> st_state st = Some ''dealer''"
  then show "game_request m a st = (Inl TypeError, st)"
    using dealer_state_without_dealer[of st m a] by blast
qed

text \<open>
  Against the claim as stated: a Stand posted to the empty session, as it is before
  \<open>start\<close> and after \<open>reset\<close>, leaves \<open>dealer\<close> in the session.
\<close>

theorem C10_counterexample:
  "held no_session
   \<and> game_request POST (Some ''stand'') no_session
       = (Inl TypeError,
          \<lparr>st_deck = None, st_player = None, st_dealer = None, st_state = Some ''dealer''\<rparr>)
   \<and> st_state (snd (game_request POST (Some ''stand'') no_session)) = Some ''dealer''"
proof -
  have "game_request POST (Some ''stand'') no_session
       = (Inl TypeError,
          \<lparr>st_deck = None, st_player = None, st_dealer = None, st_state = Some ''dealer''\<rparr>)"
    by (simp add: game_request_def request_action_def request_dealer_def
        dealer_turn_on_def no_session_def)
  then show ?thesis using held_empty by simp
qed

lemma start_sample:
  "start (\<lambda>n. 7 * n + 3) = Inr (projr (start (\<lambda>n. 7 * n + 3)))"
  "s_state (projr (start (\<lambda>n. 7 * n + 3))) = ''playing''"
  "s_dealer (projr (start (\<lambda>n. 7 * n + 3))) = [(Six, Hearts), (King, Hearts)]"
  "s_player (projr (start (\<lambda>n. 7 * n + 3))) = [(Five, Spades), (Queen, Spades)]"
  by code_simp+

lemma stand_sample:
  "game_request POST (Some ''stand'') (filled (projr (start (\<lambda>n. 7 * n + 3)))) =
     (Inr \<lparr>player_value = 15, dealer_value = 23, r_state = ''done'', message = ''You win!''\<rparr>,
      filled ((projr (start (\<lambda>n. 7 * n + 3)))
        \<lparr>s_deck := butlast (s_deck (projr (start (\<lambda>n. 7 * n + 3)))),
         s_dealer := [(Six, Hearts), (King, Hearts), (Seven, Diamonds)],
         s_state := ''done''\<rparr>))"
  by code_simp

theorem C10_witness:
  "held (filled (projr (start (\<lambda>n. 7 * n + 3))))
   \<and> s_state (projr (start (\<lambda>n. 7 * n + 3))) = ''playing''
   \<and> s_dealer (projr (start (\<lambda>n. 7 * n + 3))) = [(Six, Hearts), (King, Hearts)]
   \<and> game_request POST (Some ''stand'') (filled (projr (start (\<lambda>n. 7 * n + 3)))) =
       (Inr \<lparr>player_value = 15, dealer_value = 23, r_state = ''done'', message = ''You win!''\<rparr>,
        filled ((projr (start (\<lambda>n. 7 * n + 3)))
          \<lparr>s_deck := butlast (s_deck (projr (start (\<lambda>n. 7 * n + 3)))),
           s_dealer := [(Six, Hearts), (King, Hearts), (Seven, Diamonds)],
           s_state := ''done''\<rparr>))
   \<and> (\<exists>s'. s_state s' = ''done'' \<and> 17 \<le> hand_value (s_dealer s')
         \<and> snd (game_request POST (Some ''stand'') (filled (projr (start (\<lambda>n. 7 * n + 3)))))
             = filled s')
   \<and> held no_session
   \<and> st_dealer no_session = None \<and> st_state no_session = None
   \<and> game_request POST (Some ''stand'') no_session
       = (Inl TypeError, no_session\<lparr>st_state := Some ''dealer''\<rparr>)
   \<and> game_request GET None (no_session\<lparr>st_state := Some ''dealer''\<rparr>)
       = (Inl TypeError, no_session\<lparr>st_state := Some ''dealer''\<rparr>)"
proof -
  let ?s = "projr (start (\<lambda>n. 7 * n + 3))"
  let ?r = "\<lparr>player_value = 15, dealer_value = 23, r_state = ''done'', message = ''You win!''\<rparr>"
  let ?t = "filled (?s\<lparr>s_deck := butlast (s_deck ?s),
      s_dealer := [(Six, Hearts), (King, Hearts), (Seven, Diamonds)], s_state := ''done''\<rparr>)"
  have h: "held (filled ?s)" using start_sample(1) by (rule held_start)
  have n: "st_dealer no_session = None" "st_state no_session = None"
    by (simp_all add: no_session_def)
  have d: "st_dealer (no_session\<lparr>st_state := Some ''dealer''\<rparr>) = None"
    "st_state (no_session\<lparr>st_state := Some ''dealer''\<rparr>) = Some ''dealer''"
    by (simp_all add: no_session_def)
  from C10_dealer_state_in_session [of POST "Some ''stand''" "filled ?s" ?r ?t ?s]
    start_sample(2) stand_sample
  have 1: "\<exists>s'. ?t = filled s' \<and> s_state s' = ''done'' \<and> s_player s' = s_player ?s
         \<and> 17 \<le> hand_value (s_dealer s')
         \<and> message ?r = (if determine_winner (s_player s') (s_dealer s') = ''player''
                         then ''You win!'' else ''Dealer wins! (Dealer wins ties)'')"
    by blast
  then have 2: "\<exists>s'. s_state s' = ''done'' \<and> 17 \<le> hand_value (s_dealer s')
         \<and> snd (game_request POST (Some ''stand'') (filled ?s)) = filled s'"
    using stand_sample by auto
  from C10_dealer_state_in_session [of POST "Some ''stand''" no_session _ _ _] n
  have 3: "game_request POST (Some ''stand'') no_session
       = (Inl TypeError, no_session\<lparr>st_state := Some ''dealer''\<rparr>)"
    by blast
  from C10_dealer_state_in_session [of GET None "no_session\<lparr>st_state := Some ''dealer''\<rparr>" _ _ _] d
  have 4: "game_request GET None (no_session\<lparr>st_state := Some ''dealer''\<rparr>)
       = (Inl TypeError, no_session\<lparr>st_state := Some ''dealer''\<rparr>)"
    by blast
  from h start_sample(2,3) stand_sample 2 held_empty n 3 4 show ?thesis by blast
qed

section \<open>Drawing from an empty deck\<close>

text \<open>
  Claim C4, as the program has it. There is no \<open>DeckExhausted\<close> and no handler for it:
  every draw from an empty deck raises the built-in \<open>IndexError\<close> of \<open>pop\<close>, which
  leaves the drawing function and its caller as an unhandled exception. This holds for
  \<open>pop\<close> itself, for the deal, for a Hit in the console and in the web handler, and for
  the dealer's draw, which happens when the dealer's value is at most 16 (in the console
  on a hand of the two dealt cards). No card has moved at that point: the deck and the
  hands are as before, and after a Stand the session holds the state \<open>dealer\<close>.
\<close>

theorem C4_empty_deck_raises:
  "pop ([] :: card list) = (Inl IndexError, [])
   \<and> deal_initial_hands [] = (Inl IndexError, [])
   \<and> (choice = ''h'' \<or> choice = ''hit'' \<longrightarrow>
        player_turn [] hand (choice # rest) = (Inl IndexError, [], hand, rest))
   \<and> (hand_value hand \<le> 16 \<longrightarrow> dealer_turn [] hand = (Inl IndexError, [], hand))
   \<and> (hand_value hand \<le> 16 \<and> 2 \<le> length hand \<longrightarrow>
        dealer_turn_console [] hand = (Inl IndexError, [], hand))
   \<and> (s_deck s = [] \<and> s_state s = ''playing'' \<longrightarrow>
        game POST (Some ''hit'') s = (Inl IndexError, s))
   \<and> (s_deck s = [] \<and> s_state s = ''playing'' \<and> hand_value (s_dealer s) \<le> 16 \<longrightarrow>
        game POST (Some ''stand'') s = (Inl IndexError, s\<lparr>s_state := ''dealer''\<rparr>))
   \<and> (s_deck t = [] \<and> s_state t = ''dealer'' \<and> hand_value (s_dealer t) \<le> 16 \<longrightarrow>
        game m a t = (Inl IndexError, t))"
proof (intro conjI impI)
  show "pop ([] :: card list) = (Inl IndexError, [])" by (rule pop_Nil)
  show "deal_initial_hands [] = (Inl IndexError, [])"
    by (simp add: deal_initial_hands_def pop_Nil)
next
  assume "choice = ''h'' \<or> choice = ''hit''"
  then show "player_turn [] hand (choice # rest) = (Inl IndexError, [], hand, rest)"
    by (rule player_turn_hit_empty)
next
  assume "hand_value hand \<le> 16"
  then show "dealer_turn [] hand = (Inl IndexError, [], hand)" by (rule dealer_turn_empty)
next
  assume "hand_value hand \<le> 16 \<and> 2 \<le> length hand"
  then show "dealer_turn_console [] hand = (Inl IndexError, [], hand)"
    by (simp add: dealer_turn_console_def dealer_turn_empty)
next
  assume "s_deck s = [] \<and> s_state s = ''playing''"
  then show "game POST (Some ''hit'') s = (Inl IndexError, s)"
    by (simp add: game_def game_action_hit_empty)
next
  assume a: "s_deck s = [] \<and> s_state s = ''playing'' \<and> hand_value (s_dealer s) \<le> 16"
  then have "dealer_turn (s_deck s) (s_dealer s) = (Inl IndexError, [], s_dealer s)"
    by (simp add: dealer_turn_empty)
  moreover have "s\<lparr>s_state := ''dealer'', s_deck := [], s_dealer := s_dealer s\<rparr>
      = s\<lparr>s_state := ''dealer''\<rparr>" using a by simp
  ultimately show "game POST (Some ''stand'') s = (Inl IndexError, s\<lparr>s_state := ''dealer''\<rparr>)"
    using a by (simp add: game_def game_action_stand game_dealer_def)
next
  assume a: "s_deck t = [] \<and> s_state t = ''dealer'' \<and> hand_value (s_dealer t) \<le> 16"
  then have "dealer_turn (s_deck t) (s_dealer t) = (Inl IndexError, [], s_dealer t)"
    by (simp add: dealer_turn_empty)
  moreover have "t\<lparr>s_deck := [], s_dealer := s_dealer t\<rparr> = t" using a by simp
  ultimately show "game m a t = (Inl IndexError, t)"
    using a by (simp add: game_def game_action_skip game_dealer_def)
qed

theorem C4_witness:
  "hand_value [(Ten, Hearts), (Six, Hearts)] \<le> 16
   \<and> 2 \<le> length [(Ten, Hearts), (Six, Hearts)]
   \<and> player_turn [] [(Ten, Hearts), (Six, Hearts)] [''hit'', ''s'']
       = (Inl IndexError, [], [(Ten, Hearts), (Six, Hearts)], [''s''])
   \<and> dealer_turn [] [(Ten, Hearts), (Six, Hearts)]
       = (Inl IndexError, [], [(Ten, Hearts), (Six, Hearts)])
   \<and> dealer_turn_console [] [(Ten, Hearts), (Six, Hearts)]
       = (Inl IndexError, [], [(Ten, Hearts), (Six, Hearts)])
   \<and> game POST (Some ''hit'')
        \<lparr>s_deck = [], s_player = [(Ten, Spades), (Five, Spades)],
         s_dealer = [(Ten, Hearts), (Six, Hearts)], s_state = ''playing''\<rparr>
       = (Inl IndexError,
          \<lparr>s_deck = [], s_player = [(Ten, Spades), (Five, Spades)],
           s_dealer = [(Ten, Hearts), (Six, Hearts)], s_state = ''playing''\<rparr>)
   \<and> game POST (Some ''stand'')
        \<lparr>s_deck = [], s_player = [(Ten, Spades), (Five, Spades)],
         s_dealer = [(Ten, Hearts), (Six, Hearts)], s_state = ''playing''\<rparr>
       = (Inl IndexError,
          \<lparr>s_deck = [], s_player = [(Ten, Spades), (Five, Spades)],
           s_dealer = [(Ten, Hearts), (Six, Hearts)], s_state = ''dealer''\<rparr>)
   \<and> game GET None
        \<lparr>s_deck = [], s_player = [(Ten, Spades), (Five, Spades)],
         s_dealer = [(Ten, Hearts), (Six, Hearts)], s_state = ''dealer''\<rparr>
       = (Inl IndexError,
          \<lparr>s_deck = [], s_player = [(Ten, Spades), (Five, Spades)],
           s_dealer = [(Ten, Hearts), (Six, Hearts)], s_state = ''dealer''\<rparr>)"
proof -
  have v: "hand_value [(Ten, Hearts), (Six, Hearts)] \<le> 16"
    by (simp add: hand_value_def count_card_def soften.simps)
  show ?thesis
    using v C4_empty_deck_raises
      [of "''hit''" "[(Ten, Hearts), (Six, Hearts)]" "[''s'']"
          "\<lparr>s_deck = [], s_player = [(Ten, Spades), (Five, Spades)],
            s_dealer = [(Ten, Hearts), (Six, Hearts)], s_state = ''playing''\<rparr>"
          "\<lparr>s_deck = [], s_player = [(Ten, Spades), (Five, Spades)],
            s_dealer = [(Ten, Hearts), (Six, Hearts)], s_state = ''dealer''\<rparr>"
          GET None]
    by simp
qed

text \<open>
  Against the claim as stated: a Hit on an empty deck, in the console and in the web
  handler, ends in the unhandled \<open>IndexError\<close>; no verdict is returned and no page is
  rendered.
\<close>

theorem C4_counterexample:
  "player_turn [] [(Ten, Spades), (Five, Spades)] [''h'']
     = (Inl IndexError, [], [(Ten, Spades), (Five, Spades)], [])
   \<and> game POST (Some ''hit'')
        \<lparr>s_deck = [], s_player = [(Ten, Spades), (Five, Spades)],
         s_dealer = [(Ten, Hearts), (Six, Hearts)], s_state = ''playing''\<rparr>
     = (Inl IndexError,
        \<lparr>s_deck = [], s_player = [(Ten, Spades), (Five, Spades)],
         s_dealer = [(Ten, Hearts), (Six, Hearts)], s_state = ''playing''\<rparr>)"
  by (simp add: player_turn.simps game_def game_action_def pop_def)

section \<open>A player bust ends the round\<close>

text \<open>
  Claim C6. When the player's final hand is above 21, the console round ends with the
  verdict \<open>Dealer wins!\<close> and the dealer holds exactly the two cards of the deal: after
  the deal only the player's draws have left the deck. In the web handler the Hit that
  takes the player above 21 stores the state \<open>done\<close> with the message of the bust and
  leaves the dealer's hand as it was, and no request of the player's turn other than
  Stand ever changes the dealer's hand.
\<close>

theorem C6_player_bust_skips_dealer:
  "(play_round g ins = Inr (v, deck', player', dealer') \<and> 21 < hand_value player' \<longrightarrow>
      v = ''Dealer wins!'' \<and> length dealer' = 2
      \<and> (\<exists>p0 d0 drawn.
            deal_initial_hands (fst (build_deck True g)) = (Inr (p0, dealer'), d0)
            \<and> player' = p0 @ drawn \<and> d0 = deck' @ rev drawn))
   \<and> (s_state s = ''playing'' \<and> s_deck s = deck @ [c]
        \<and> 21 < hand_value (s_player s @ [c]) \<longrightarrow>
      game POST (Some ''hit'') s =
        (Inr \<lparr>player_value = hand_value (s_player s @ [c]),
              dealer_value = hand_value (s_dealer s),
              r_state = ''done'', message = ''You busted! Dealer wins.''\<rparr>,
         s\<lparr>s_deck := deck, s_player := s_player s @ [c], s_state := ''done''\<rparr>))
   \<and> (s_state s = ''playing'' \<and> \<not> (m = POST \<and> a = Some ''stand'') \<longrightarrow>
      s_dealer (snd (game m a s)) = s_dealer s)"
proof (intro conjI impI)
  assume "play_round g ins = Inr (v, deck', player', dealer') \<and> 21 < hand_value player'"
  then have a: "play_round g ins = Inr (v, deck', player', dealer')" "21 < hand_value player'"
    by simp_all
  from play_round_bust[OF a]
  show "v = ''Dealer wins!''" "length dealer' = 2"
    "\<exists>p0 d0 drawn. deal_initial_hands (fst (build_deck True g)) = (Inr (p0, dealer'), d0)
        \<and> player' = p0 @ drawn \<and> d0 = deck' @ rev drawn"
    by blast+
next
  assume "s_state s = ''playing'' \<and> s_deck s = deck @ [c] \<and> 21 < hand_value (s_player s @ [c])"
  then show "game POST (Some ''hit'') s =
        (Inr \<lparr>player_value = hand_value (s_player s @ [c]),
              dealer_value = hand_value (s_dealer s),
              r_state = ''done'', message = ''You busted! Dealer wins.''\<rparr>,
         s\<lparr>s_deck := deck, s_player := s_player s @ [c], s_state := ''done''\<rparr>)"
    using game_hit_bust[of s deck c] by blast
next
  assume "s_state s = ''playing'' \<and> \<not> (m = POST \<and> a = Some ''stand'')"
  then show "s_dealer (snd (game m a s)) = s_dealer s"
    using game_dealer_kept[of s m a] by blast
qed

lemma play_round_sample:
  "play_round (\<lambda>_. 0) [''h'', ''h''] =
     Inr (''Dealer wins!'', take 46 (fst (build_deck True (\<lambda>_. 0))),
          [(Two, Spades), (Ace, Clubs), (Jack, Clubs), (Ten, Clubs)],
          [(King, Clubs), (Queen, Clubs)])"
  by code_simp

theorem C6_witness:
  "play_round (\<lambda>_. 0) [''h'', ''h''] =
     Inr (''Dealer wins!'', take 46 (fst (build_deck True (\<lambda>_. 0))),
          [(Two, Spades), (Ace, Clubs), (Jack, Clubs), (Ten, Clubs)],
          [(King, Clubs), (Queen, Clubs)])
   \<and> 21 < hand_value [(Two, Spades), (Ace, Clubs), (Jack, Clubs), (Ten, Clubs)]
   \<and> (\<exists>p0 d0 drawn.
         deal_initial_hands (fst (build_deck True (\<lambda>_. 0)))
           = (Inr (p0, [(King, Clubs), (Queen, Clubs)]), d0)
         \<and> [(Two, Spades), (Ace, Clubs), (Jack, Clubs), (Ten, Clubs)] = p0 @ drawn
         \<and> d0 = take 46 (fst (build_deck True (\<lambda>_. 0))) @ rev drawn)
   \<and> game POST (Some ''hit'')
        \<lparr>s_deck = [(Two, Clubs), (King, Spades)], s_player = [(Ten, Spades), (Five, Spades)],
         s_dealer = [(Ten, Hearts), (Six, Hearts)], s_state = ''playing''\<rparr>
       = (Inr \<lparr>player_value = 25, dealer_value = 16, r_state = ''done'',
               message = ''You busted! Dealer wins.''\<rparr>,
          \<lparr>s_deck = [(Two, Clubs)], s_player = [(Ten, Spades), (Five, Spades), (King, Spades)],
           s_dealer = [(Ten, Hearts), (Six, Hearts)], s_state = ''done''\<rparr>)"
proof -
  let ?s = "\<lparr>s_deck = [(Two, Clubs), (King, Spades)], s_player = [(Ten, Spades), (Five, Spades)],
         s_dealer = [(Ten, Hearts), (Six, Hearts)], s_state = ''playing''\<rparr>"
  have b: "21 < hand_value [(Two, Spades), (Ace, Clubs), (Jack, Clubs), (Ten, Clubs)]"
    and b': "hand_value [(Ten, Spades), (Five, Spades), (King, Spades)] = 25"
    and d: "hand_value [(Ten, Hearts), (Six, Hearts)] = 16"
    by (simp_all add: hand_value_def count_card_def soften.simps)
  note c6 = C6_player_bust_skips_dealer
    [of "\<lambda>_. 0" "[''h'', ''h'']" "''Dealer wins!''" "take 46 (fst (build_deck True (\<lambda>_. 0)))"
        "[(Two, Spades), (Ace, Clubs), (Jack, Clubs), (Ten, Clubs)]"
        "[(King, Clubs), (Queen, Clubs)]" ?s "[(Two, Clubs)]" "(King, Spades)" POST "Some ''hit''"]
  have pre: "s_state ?s = ''playing'' \<and> s_deck ?s = [(Two, Clubs)] @ [(King, Spades)]
      \<and> 21 < hand_value (s_player ?s @ [(King, Spades)])"
    using b' by simp
  from c6 play_round_sample b
  have 1: "\<exists>p0 d0 drawn.
         deal_initial_hands (fst (build_deck True (\<lambda>_. 0)))
           = (Inr (p0, [(King, Clubs), (Queen, Clubs)]), d0)
         \<and> [(Two, Spades), (Ace, Clubs), (Jack, Clubs), (Ten, Clubs)] = p0 @ drawn
         \<and> d0 = take 46 (fst (build_deck True (\<lambda>_. 0))) @ rev drawn"
    by blast
  from c6 pre
  have "game POST (Some ''hit'') ?s =
        (Inr \<lparr>player_value = hand_value (s_player ?s @ [(King, Spades)]),
              dealer_value = hand_value (s_dealer ?s),
              r_state = ''done'', message = ''You busted! Dealer wins.''\<rparr>,
         ?s\<lparr>s_deck := [(Two, Clubs)], s_player := s_player ?s @ [(King, Spades)],
             s_state := ''done''\<rparr>)"
    by blast
  then have 2: "game POST (Some ''hit'') ?s
       = (Inr \<lparr>player_value = 25, dealer_value = 16, r_state = ''done'',
               message = ''You busted! Dealer wins.''\<rparr>,
          \<lparr>s_deck = [(Two, Clubs)], s_player = [(Ten, Spades), (Five, Spades), (King, Spades)],
           s_dealer = [(Ten, Hearts), (Six, Hearts)], s_state = ''done''\<rparr>)"
    using b' d by simp
  from play_round_sample b 1 2 show ?thesis by blast
qed

end
